theory Spec2Isabelle
  imports Main "HOL-Library.Multiset" "HOL-Library.AList"
begin

section \<open>Discovery records\<close>

text \<open>
  The analyzers read the dictionaries that the discoverers build. Each dictionary is a
  record here. A key that the code reads with a truthiness test, or with
  \<^verbatim>\<open>.get(key, False)\<close>, is a \<open>bool\<close> (a missing key reads as \<open>False\<close>); a key that may
  hold \<^verbatim>\<open>None\<close> and is compared or copied is an \<open>option\<close>.
\<close>

datatype py_error = TypeError

text \<open>
  A security-group reference on an EC2 record. \<^verbatim>\<open>resource_discoverer._get_ec2_details\<close>
  emits dictionaries \<^verbatim>\<open>{"group_id": .., "group_name": ..}\<close> (\<open>SgRec\<close>), which is what
  \<^verbatim>\<open>risk_analyzer\<close> subscripts; \<^verbatim>\<open>relationship_builder\<close> uses the element itself as a
  dictionary key and set member, which needs a hashable value such as the id string
  (\<open>SgId\<close>). Lambda and RDS records carry plain id strings.
\<close>

datatype sg_ref = SgId string | SgRec string string

record policy =
  policy_name :: string
  policy_arn :: string

record access_key =
  access_key_id :: string
  status :: string

record iam_user =
  username :: string
  user_arn :: "string option"
  mfa_enabled :: bool
  is_inactive :: bool
  access_keys :: "access_key list"
  user_attached_policies :: "policy list"

record iam_role =
  role_name :: string
  arn :: string
  role_type :: "string option"
  is_admin :: bool
  attached_policies :: "policy list"

record iam_data =
  account_id :: "string option"
  roles :: "iam_role list"
  users :: "iam_user list"

record ec2_instance =
  instance_id :: string
  name :: string
  is_public :: bool
  ec2_security_groups :: "sg_ref list"
  iam_instance_profile :: "string option"
  state :: "string option"

record lambda_function =
  function_name :: string
  runtime :: "string option"
  role :: "string option"
  is_in_vpc :: bool
  fn_security_groups :: "string list"

record s3_bucket =
  bucket_name :: string
  bucket_is_public :: bool
  encryption_enabled :: bool

record rds_instance =
  db_instance_identifier :: string
  publicly_accessible :: bool
  encrypted :: bool
  rds_security_groups :: "string list"

record sg_rule =
  protocol :: string
  from_port :: "int option"
  to_port :: "int option"
  cidr :: string

record security_group =
  group_id :: string
  group_name :: string
  vpc_id :: "string option"
  has_internet_access :: bool
  allows_all_traffic :: bool
  risky_rules :: "sg_rule list"

record resource_data =
  region :: "string option"
  ec2_instances :: "ec2_instance list"
  lambda_functions :: "lambda_function list"
  s3_buckets :: "s3_bucket list"
  rds_instances :: "rds_instance list"
  security_groups :: "security_group list"

text \<open>The fields of \<^verbatim>\<open>utils.config.Settings\<close> that the analyzers read.\<close>

record settings =
  risk_critical_threshold :: int
  risk_high_threshold :: int
  risk_medium_threshold :: int
  enable_cis_benchmark :: bool

definition default_settings :: settings where
  "default_settings =
     \<lparr>risk_critical_threshold = 90, risk_high_threshold = 70,
      risk_medium_threshold = 40, enable_cis_benchmark = True\<rparr>"

section \<open>Risk analyzer\<close>

datatype risk_type = Identity | Resource | Network | Compliance

datatype severity = Critical | High | Medium | Low

text \<open>
  A finding dictionary. The free-text \<^verbatim>\<open>description\<close> and the copied \<^verbatim>\<open>resource_arn\<close>,
  \<^verbatim>\<open>iam_role\<close>, \<^verbatim>\<open>vpc_id\<close> and \<^verbatim>\<open>risky_rules\<close> entries are display values that no code
  of the analyzer reads back; they are left out. \<open>finding_security_groups\<close> is the
  \<^verbatim>\<open>"security_groups"\<close> entry, which only an EC2 finding has.
\<close>

record finding =
  risk_id :: string
  risk_type :: risk_type
  severity :: severity
  risk_score :: int
  title :: string
  resource_type :: string
  resource_id :: string
  resource_name :: "string option"
  finding_security_groups :: "string list option"
  remediation :: string
  compliance_frameworks :: "string list"

subsection \<open>Identity risks\<close>

definition user_mfa_risk :: "iam_user \<Rightarrow> finding" where
  "user_mfa_risk user =
     \<lparr>risk_id = ''IAM-USER-MFA-'' @ username user, risk_type = Identity,
      severity = High, risk_score = 75,
      title = ''User without MFA: '' @ username user,
      resource_type = ''iam_user'', resource_id = username user,
      resource_name = None, finding_security_groups = None,
      remediation = ''Enable MFA for this user'',
      compliance_frameworks = [''CIS-1.2'', ''NIST-800-53'']\<rparr>"

definition user_inactive_risk :: "iam_user \<Rightarrow> finding" where
  "user_inactive_risk user =
     \<lparr>risk_id = ''IAM-USER-INACTIVE-'' @ username user, risk_type = Identity,
      severity = Medium, risk_score = 60,
      title = ''Inactive user: '' @ username user,
      resource_type = ''iam_user'', resource_id = username user,
      resource_name = None, finding_security_groups = None,
      remediation = ''Review and disable or delete inactive users'',
      compliance_frameworks = [''CIS-1.3'']\<rparr>"

definition role_admin_risk :: "iam_role \<Rightarrow> finding" where
  "role_admin_risk r =
     \<lparr>risk_id = ''IAM-ROLE-ADMIN-'' @ role_name r, risk_type = Identity,
      severity = High, risk_score = 80,
      title = ''Admin role: '' @ role_name r,
      resource_type = ''iam_role'', resource_id = role_name r,
      resource_name = None, finding_security_groups = None,
      remediation = ''Review admin access and apply least privilege principle'',
      compliance_frameworks = [''CIS-1.16'']\<rparr>"

definition user_multikey_risk :: "iam_user \<Rightarrow> finding" where
  "user_multikey_risk user =
     \<lparr>risk_id = ''IAM-USER-MULTIKEY-'' @ username user, risk_type = Identity,
      severity = Medium, risk_score = 55,
      title = ''Multiple active access keys: '' @ username user,
      resource_type = ''iam_user'', resource_id = username user,
      resource_name = None, finding_security_groups = None,
      remediation = ''Rotate and remove unnecessary access keys'',
      compliance_frameworks = [''CIS-1.4'']\<rparr>"

definition active_keys :: "iam_user \<Rightarrow> access_key list" where
  "active_keys user = filter (\<lambda>k. status k = ''Active'') (access_keys user)"

text \<open>Four loops, each appending to the same list, in the order of the source.\<close>

definition analyze_identity_risks :: "iam_data \<Rightarrow> finding list" where
  "analyze_identity_risks iam =
     map user_mfa_risk (filter (\<lambda>u. \<not> mfa_enabled u) (users iam))
     @ map user_inactive_risk (filter is_inactive (users iam))
     @ map role_admin_risk (filter is_admin (roles iam))
     @ map user_multikey_risk (filter (\<lambda>u. length (active_keys u) > 1) (users iam))"

subsection \<open>Resource risks\<close>

text \<open>
  \<^verbatim>\<open>sg['group_id']\<close>: subscripting a dictionary gives the id; subscripting a string with a
  string raises \<^verbatim>\<open>TypeError\<close>.
\<close>

fun sg_group_id :: "sg_ref \<Rightarrow> py_error + string" where
  "sg_group_id (SgRec gid gname) = Inr gid"
| "sg_group_id (SgId s) = Inl TypeError"

text \<open>The list comprehension \<^verbatim>\<open>[sg['group_id'] for sg in ...]\<close>: the first failure aborts.\<close>

fun sg_group_ids :: "sg_ref list \<Rightarrow> py_error + string list" where
  "sg_group_ids [] = Inr []"
| "sg_group_ids (sg # sgs) =
     (case sg_group_id sg of
        Inl e \<Rightarrow> Inl e
      | Inr g \<Rightarrow> (case sg_group_ids sgs of Inl e \<Rightarrow> Inl e | Inr gs \<Rightarrow> Inr (g # gs)))"

text \<open>
  The inner loop of the EC2 check: \<^verbatim>\<open>has_risky_sg\<close> starts \<^verbatim>\<open>False\<close> and every
  iteration sets it to \<^verbatim>\<open>True\<close>, whatever the security group is.
\<close>

fun has_risky_sg_loop :: "bool \<Rightarrow> sg_ref list \<Rightarrow> bool" where
  "has_risky_sg_loop acc [] = acc"
| "has_risky_sg_loop acc (sg # sgs) = has_risky_sg_loop True sgs"

definition ec2_public_risk :: "ec2_instance \<Rightarrow> py_error + finding" where
  "ec2_public_risk instance =
     (let has_risky_sg = has_risky_sg_loop False (ec2_security_groups instance);
          score = (if has_risky_sg then 90 else 70)
      in case sg_group_ids (ec2_security_groups instance) of
           Inl e \<Rightarrow> Inl e
         | Inr gids \<Rightarrow> Inr
            \<lparr>risk_id = ''EC2-PUBLIC-'' @ instance_id instance, risk_type = Resource,
             severity = (if has_risky_sg then Critical else High), risk_score = score,
             title = ''Public EC2 instance: '' @ name instance,
             resource_type = ''ec2_instance'', resource_id = instance_id instance,
             resource_name = Some (name instance), finding_security_groups = Some gids,
             remediation = ''Review security groups and remove public access if not required'',
             compliance_frameworks = [''CIS-5.1'']\<rparr>)"

fun ec2_public_risks :: "ec2_instance list \<Rightarrow> py_error + finding list" where
  "ec2_public_risks [] = Inr []"
| "ec2_public_risks (instance # rest) =
     (if is_public instance then
        (case ec2_public_risk instance of
           Inl e \<Rightarrow> Inl e
         | Inr f \<Rightarrow> (case ec2_public_risks rest of Inl e \<Rightarrow> Inl e | Inr fs \<Rightarrow> Inr (f # fs)))
      else ec2_public_risks rest)"

definition s3_public_risk :: "s3_bucket \<Rightarrow> finding" where
  "s3_public_risk bucket =
     \<lparr>risk_id = ''S3-PUBLIC-'' @ bucket_name bucket, risk_type = Resource,
      severity = Critical, risk_score = 95,
      title = ''Public S3 bucket: '' @ bucket_name bucket,
      resource_type = ''s3_bucket'', resource_id = bucket_name bucket,
      resource_name = None, finding_security_groups = None,
      remediation = ''Enable S3 Block Public Access and review bucket policies'',
      compliance_frameworks = [''CIS-2.1.5'']\<rparr>"

definition s3_unencrypted_risk :: "s3_bucket \<Rightarrow> finding" where
  "s3_unencrypted_risk bucket =
     \<lparr>risk_id = ''S3-UNENCRYPTED-'' @ bucket_name bucket, risk_type = Resource,
      severity = High, risk_score = 75,
      title = ''Unencrypted S3 bucket: '' @ bucket_name bucket,
      resource_type = ''s3_bucket'', resource_id = bucket_name bucket,
      resource_name = None, finding_security_groups = None,
      remediation = ''Enable default encryption for the bucket'',
      compliance_frameworks = [''CIS-2.1.1'']\<rparr>"

definition rds_public_risk :: "rds_instance \<Rightarrow> finding" where
  "rds_public_risk instance =
     \<lparr>risk_id = ''RDS-PUBLIC-'' @ db_instance_identifier instance, risk_type = Resource,
      severity = Critical, risk_score = 90,
      title = ''Public RDS instance: '' @ db_instance_identifier instance,
      resource_type = ''rds_instance'', resource_id = db_instance_identifier instance,
      resource_name = None, finding_security_groups = None,
      remediation = ''Disable public accessibility and use VPC peering or VPN'',
      compliance_frameworks = [''CIS-2.3.1'']\<rparr>"

definition rds_unencrypted_risk :: "rds_instance \<Rightarrow> finding" where
  "rds_unencrypted_risk instance =
     \<lparr>risk_id = ''RDS-UNENCRYPTED-'' @ db_instance_identifier instance, risk_type = Resource,
      severity = High, risk_score = 75,
      title = ''Unencrypted RDS instance: '' @ db_instance_identifier instance,
      resource_type = ''rds_instance'', resource_id = db_instance_identifier instance,
      resource_name = None, finding_security_groups = None,
      remediation = ''Enable encryption for the RDS instance'',
      compliance_frameworks = [''CIS-2.3.1'']\<rparr>"

definition analyze_resource_risks :: "resource_data \<Rightarrow> py_error + finding list" where
  "analyze_resource_risks rd =
     (case ec2_public_risks (ec2_instances rd) of
        Inl e \<Rightarrow> Inl e
      | Inr ec2 \<Rightarrow> Inr
         (ec2
          @ map s3_public_risk (filter bucket_is_public (s3_buckets rd))
          @ map s3_unencrypted_risk (filter (\<lambda>b. \<not> encryption_enabled b) (s3_buckets rd))
          @ map rds_public_risk (filter publicly_accessible (rds_instances rd))
          @ map rds_unencrypted_risk (filter (\<lambda>i. \<not> encrypted i) (rds_instances rd))))"

subsection \<open>Network and compliance risks\<close>

definition critical_ports :: "int list" where
  "critical_ports = [22, 3389, 1433, 3306, 5432, 27017]"

text \<open>
  \<^verbatim>\<open>rule.get('from_port') in critical_ports\<close>: \<^verbatim>\<open>None\<close> is in no list of integers. The loop
  breaks at the first hit, so it computes whether some rule hits.
\<close>

definition rule_on_critical_port :: "sg_rule \<Rightarrow> bool" where
  "rule_on_critical_port rule =
     (case from_port rule of None \<Rightarrow> False | Some p \<Rightarrow> p \<in> set critical_ports)"

definition sg_internet_risk :: "security_group \<Rightarrow> finding" where
  "sg_internet_risk sg =
     (let hit = list_ex rule_on_critical_port (risky_rules sg)
      in \<lparr>risk_id = ''SG-INTERNET-'' @ group_id sg, risk_type = Network,
          severity = (if hit then Critical else High),
          risk_score = (if hit then 95 else 85),
          title = ''Security group with Internet access: '' @ group_name sg,
          resource_type = ''security_group'', resource_id = group_id sg,
          resource_name = Some (group_name sg), finding_security_groups = None,
          remediation = ''Restrict security group rules to specific IP ranges'',
          compliance_frameworks = [''CIS-5.2'']\<rparr>)"

definition analyze_network_risks :: "resource_data \<Rightarrow> finding list" where
  "analyze_network_risks rd =
     map sg_internet_risk (filter has_internet_access (security_groups rd))"

text \<open>Both branches return the empty list: the benchmark checks are placeholders.\<close>

definition analyze_compliance_risks :: "settings \<Rightarrow> iam_data \<Rightarrow> resource_data \<Rightarrow> finding list" where
  "analyze_compliance_risks cfg iam rd = (if \<not> enable_cis_benchmark cfg then [] else [])"

subsection \<open>analyze_all\<close>

text \<open>
  \<^verbatim>\<open>self.risk_scores\<close>: four lists created once by \<^verbatim>\<open>__init__\<close> and appended to by every
  call of \<^verbatim>\<open>analyze_all\<close> on the instance.
\<close>

record risk_scores =
  critical :: "finding list"
  high :: "finding list"
  medium :: "finding list"
  low :: "finding list"

definition RiskAnalyzer_init :: risk_scores where
  "RiskAnalyzer_init = \<lparr>critical = [], high = [], medium = [], low = []\<rparr>"

text \<open>
  The \<^verbatim>\<open>if/elif\<close> chain of the categorising loop: which of the four lists a score
  selects.
\<close>

definition bucket_of :: "settings \<Rightarrow> int \<Rightarrow> severity" where
  "bucket_of cfg score =
     (if score \<ge> risk_critical_threshold cfg then Critical
      else if score \<ge> risk_high_threshold cfg then High
      else if score \<ge> risk_medium_threshold cfg then Medium
      else Low)"

text \<open>One iteration of the loop: the finding is appended to the selected list.\<close>

definition categorize :: "settings \<Rightarrow> risk_scores \<Rightarrow> finding \<Rightarrow> risk_scores" where
  "categorize cfg rs risk =
     (case bucket_of cfg (risk_score risk) of
        Critical \<Rightarrow> rs\<lparr>critical := critical rs @ [risk]\<rparr>
      | High \<Rightarrow> rs\<lparr>high := high rs @ [risk]\<rparr>
      | Medium \<Rightarrow> rs\<lparr>medium := medium rs @ [risk]\<rparr>
      | Low \<Rightarrow> rs\<lparr>low := low rs @ [risk]\<rparr>)"

record risk_summary =
  total_risks :: nat
  critical_count :: nat
  high_count :: nat
  medium_count :: nat
  low_count :: nat

record analysis =
  timestamp :: string
  analysis_account_id :: "string option"
  analysis_region :: "string option"
  identity_risks :: "finding list"
  resource_risks :: "finding list"
  network_risks :: "finding list"
  compliance_risks :: "finding list"
  summary :: risk_summary
  top_risks :: "finding list"

text \<open>
  The loop over \<^verbatim>\<open>results["risks"].items()\<close>: the four categories in insertion order,
  before sorting.
\<close>

definition all_findings :: "analysis \<Rightarrow> finding list" where
  "all_findings out =
     identity_risks out @ resource_risks out @ network_risks out @ compliance_risks out"

text \<open>
  \<^verbatim>\<open>list.sort(key=..., reverse=True)\<close> is stable: findings of equal score keep their
  order. \<open>sort_key\<close> is a stable insertion sort, here on the negated score.
\<close>

definition sort_by_score :: "finding list \<Rightarrow> finding list" where
  "sort_by_score fs = sort_key (\<lambda>f. - risk_score f) fs"

text \<open>
  \<open>now\<close> is the reading of \<^verbatim>\<open>datetime.utcnow().isoformat()\<close>; \<open>rs\<close> is \<^verbatim>\<open>self.risk_scores\<close>
  before the call, returned as it is after the call.
\<close>

definition analyze_all ::
  "settings \<Rightarrow> string \<Rightarrow> risk_scores \<Rightarrow> iam_data \<Rightarrow> resource_data \<Rightarrow> py_error + (analysis \<times> risk_scores)"
where
  "analyze_all cfg now rs iam rd =
     (let ident = analyze_identity_risks iam
      in case analyze_resource_risks rd of
           Inl e \<Rightarrow> Inl e
         | Inr res \<Rightarrow>
            (let net = analyze_network_risks rd;
                 comp = analyze_compliance_risks cfg iam rd;
                 all_risks = sort_by_score (ident @ res @ net @ comp);
                 rs' = foldl (categorize cfg) rs all_risks
             in Inr
                  (\<lparr>timestamp = now, analysis_account_id = account_id iam,
                    analysis_region = region rd,
                    identity_risks = ident, resource_risks = res,
                    network_risks = net, compliance_risks = comp,
                    summary = \<lparr>total_risks = length all_risks,
                               critical_count = length (critical rs'),
                               high_count = length (high rs'),
                               medium_count = length (medium rs'),
                               low_count = length (low rs')\<rparr>,
                    top_risks = take 10 all_risks\<rparr>, rs')))"

text \<open>
  The severity and score that each rule of the three analysers writes into its findings:
  the constants of the dictionaries above, collected.
\<close>

definition rule_table :: "(severity \<times> int) set" where
  "rule_table = {(High, 75), (Medium, 60), (High, 80), (Medium, 55), (High, 70), (Critical, 90),
                 (Critical, 95), (High, 85)}"

subsection \<open>Blast radius\<close>

record affected_resource =
  affected_type :: string
  affected_id :: string
  affected_name :: "string option"
  affected_is_public :: "bool option"
  affected_is_in_vpc :: "bool option"

record blast_radius =
  identity_arn :: string
  affected_resources :: "affected_resource list"
  permissions :: "policy list"
  blast_risk_score :: int

datatype identity = RoleIdentity iam_role | UserIdentity iam_user

text \<open>
  The two lookup loops: the first role whose \<^verbatim>\<open>arn\<close> equals the argument; only when no
  role matched, the first such user.
\<close>

definition find_identity :: "string \<Rightarrow> iam_data \<Rightarrow> identity option" where
  "find_identity a iam =
     (case find (\<lambda>r. arn r = a) (roles iam) of
        Some r \<Rightarrow> Some (RoleIdentity r)
      | None \<Rightarrow>
         (case find (\<lambda>u. user_arn u = Some a) (users iam) of
            Some u \<Rightarrow> Some (UserIdentity u)
          | None \<Rightarrow> None))"

definition ec2_affected :: "ec2_instance \<Rightarrow> affected_resource" where
  "ec2_affected instance =
     \<lparr>affected_type = ''ec2_instance'', affected_id = instance_id instance,
      affected_name = Some (name instance), affected_is_public = Some (is_public instance),
      affected_is_in_vpc = None\<rparr>"

definition lambda_affected :: "lambda_function \<Rightarrow> affected_resource" where
  "lambda_affected function =
     \<lparr>affected_type = ''lambda_function'', affected_id = function_name function,
      affected_name = None, affected_is_public = None,
      affected_is_in_vpc = Some (is_in_vpc function)\<rparr>"

definition role_affected_resources :: "string \<Rightarrow> resource_data \<Rightarrow> affected_resource list" where
  "role_affected_resources rn rd =
     map ec2_affected (filter (\<lambda>i. iam_instance_profile i = Some rn) (ec2_instances rd))
     @ map lambda_affected (filter (\<lambda>f. role f = Some rn) (lambda_functions rd))"

definition blast_score :: "affected_resource list \<Rightarrow> policy list \<Rightarrow> int" where
  "blast_score affected perms =
     (let resource_count = int (length affected);
          policy_count = int (length perms);
          public_resources = int (length (filter (\<lambda>r. affected_is_public r = Some True) affected))
      in min 100 ((resource_count * 10) + (policy_count * 5) + (public_resources * 20)))"

definition calculate_blast_radius :: "string \<Rightarrow> iam_data \<Rightarrow> resource_data \<Rightarrow> blast_radius" where
  "calculate_blast_radius a iam rd =
     (case find_identity a iam of
        None \<Rightarrow>
          \<lparr>identity_arn = a, affected_resources = [], permissions = [], blast_risk_score = 0\<rparr>
      | Some ident \<Rightarrow>
          (let affected = (case ident of
                             RoleIdentity r \<Rightarrow> role_affected_resources (role_name r) rd
                           | UserIdentity u \<Rightarrow> []);
               perms = (case ident of
                          RoleIdentity r \<Rightarrow> attached_policies r
                        | UserIdentity u \<Rightarrow> user_attached_policies u)
           in \<lparr>identity_arn = a, affected_resources = affected, permissions = perms,
               blast_risk_score = blast_score affected perms\<rparr>))"

section \<open>Relationship builder\<close>

text \<open>
  A Python \<^verbatim>\<open>dict\<close> keeps its keys in insertion order, and assigning to a key that is
  present replaces the value where it stands. An association list with distinct keys
  under \<open>AList.update\<close> (replace in place, else append) behaves the same;
  \<open>AList.map_entry\<close> is the in-place mutation of the value stored under a key.
\<close>

type_synonym 'v pydict = "(string \<times> 'v) list"

record relationship =
  rel_source :: string
  rel_source_type :: string
  rel_target :: string
  rel_target_type :: string
  relationship_type :: string

definition type_prefix_map :: "string pydict" where
  "type_prefix_map =
     [(''iam_role'', ''role''), (''iam_user'', ''user''), (''ec2_instance'', ''ec2''),
      (''lambda_function'', ''lambda''), (''s3_bucket'', ''s3''), (''rds_instance'', ''rds''),
      (''security_group'', ''sg'')]"

definition normalize_node_id :: "string \<Rightarrow> string \<Rightarrow> string" where
  "normalize_node_id rtype rid =
     (case map_of type_prefix_map rtype of Some prefix \<Rightarrow> prefix | None \<Rightarrow> rtype)
     @ ''-'' @ rid"

subsection \<open>Role-to-resource map\<close>

record resource_info =
  ri_resource_type :: string
  ri_resource_id :: string
  ri_resource_name :: string
  ri_is_public :: "bool option"
  ri_runtime :: "string option"
  ri_security_groups :: "sg_ref list"

text \<open>
  An entry of \<^verbatim>\<open>role_map\<close>. \<open>rm_security_groups\<close> is a Python \<^verbatim>\<open>set\<close> while the map is
  built, kept here as the list of its members without repetition, and the result of
  \<^verbatim>\<open>list(...)\<close> of that set in the returned map.
\<close>

record role_entry =
  rm_role_name :: string
  rm_role_arn :: string
  rm_role_type :: "string option"
  rm_is_admin :: bool
  rm_attached_policies :: "policy list"
  rm_resources :: "resource_info list"
  rm_security_groups :: "string list"

definition init_role_entry :: "iam_role \<Rightarrow> role_entry" where
  "init_role_entry r =
     \<lparr>rm_role_name = role_name r, rm_role_arn = arn r, rm_role_type = role_type r,
      rm_is_admin = is_admin r, rm_attached_policies = attached_policies r,
      rm_resources = [], rm_security_groups = []\<rparr>"

definition set_add :: "string \<Rightarrow> string list \<Rightarrow> string list" where
  "set_add x s = (if x \<in> set s then s else s @ [x])"

text \<open>
  \<^verbatim>\<open>set.update(iterable)\<close> hashes every element: a string is added, a dictionary raises
  \<^verbatim>\<open>TypeError: unhashable type: 'dict'\<close>.
\<close>

fun set_update :: "string list \<Rightarrow> sg_ref list \<Rightarrow> py_error + string list" where
  "set_update s [] = Inr s"
| "set_update s (SgId g # refs) = set_update (set_add g s) refs"
| "set_update s (SgRec g n # refs) = Inl TypeError"

text \<open>A \<^verbatim>\<open>for\<close> loop whose body may raise: the first error ends it.\<close>

fun fold_err :: "('s \<Rightarrow> 'a \<Rightarrow> py_error + 's) \<Rightarrow> 'a list \<Rightarrow> 's \<Rightarrow> py_error + 's" where
  "fold_err f [] s = Inr s"
| "fold_err f (x # xs) s = (case f s x of Inl e \<Rightarrow> Inl e | Inr s' \<Rightarrow> fold_err f xs s')"

definition ec2_resource_info :: "ec2_instance \<Rightarrow> resource_info" where
  "ec2_resource_info instance =
     \<lparr>ri_resource_type = ''ec2_instance'', ri_resource_id = instance_id instance,
      ri_resource_name = name instance, ri_is_public = Some (is_public instance),
      ri_runtime = None, ri_security_groups = ec2_security_groups instance\<rparr>"

definition ec2_assumes :: "string \<Rightarrow> ec2_instance \<Rightarrow> relationship" where
  "ec2_assumes iam_profile instance =
     \<lparr>rel_source = iam_profile, rel_source_type = ''iam_role'',
      rel_target = instance_id instance, rel_target_type = ''ec2_instance'',
      relationship_type = ''assumes''\<rparr>"

text \<open>
  One iteration of the EC2 loop. The state is \<^verbatim>\<open>role_map\<close> and \<^verbatim>\<open>self.relationships\<close>.
  \<^verbatim>\<open>if iam_profile and iam_profile in role_map\<close>: the profile is neither \<^verbatim>\<open>None\<close> nor the
  empty string, and it is a key.
\<close>

definition map_ec2_to_role ::
  "role_entry pydict \<times> relationship list \<Rightarrow> ec2_instance
     \<Rightarrow> py_error + (role_entry pydict \<times> relationship list)"
where
  "map_ec2_to_role st instance =
     (case iam_instance_profile instance of
        None \<Rightarrow> Inr st
      | Some iam_profile \<Rightarrow>
         (if iam_profile = [] then Inr st
          else case map_of (fst st) iam_profile of
             None \<Rightarrow> Inr st
           | Some entry \<Rightarrow>
              (case set_update (rm_security_groups entry) (ec2_security_groups instance) of
                 Inl e \<Rightarrow> Inl e
               | Inr sgs \<Rightarrow> Inr
                  (AList.map_entry iam_profile
                     (\<lambda>en. en\<lparr>rm_resources := rm_resources en @ [ec2_resource_info instance],
                              rm_security_groups := sgs\<rparr>) (fst st),
                   snd st @ [ec2_assumes iam_profile instance]))))"

text \<open>
  \<^verbatim>\<open>role_arn.split("/")[-1] if "/" in role_arn else role_arn\<close>: what follows the last
  slash.
\<close>

definition last_segment :: "string \<Rightarrow> string" where
  "last_segment s =
     (if CHR ''/'' \<in> set s then rev (takeWhile (\<lambda>c. c \<noteq> CHR ''/'') (rev s)) else s)"

definition lambda_resource_info :: "lambda_function \<Rightarrow> resource_info" where
  "lambda_resource_info function =
     \<lparr>ri_resource_type = ''lambda_function'', ri_resource_id = function_name function,
      ri_resource_name = function_name function, ri_is_public = None,
      ri_runtime = runtime function,
      ri_security_groups = map SgId (fn_security_groups function)\<rparr>"

definition lambda_assumes :: "string \<Rightarrow> lambda_function \<Rightarrow> relationship" where
  "lambda_assumes rn function =
     \<lparr>rel_source = rn, rel_source_type = ''iam_role'',
      rel_target = function_name function, rel_target_type = ''lambda_function'',
      relationship_type = ''assumes''\<rparr>"

definition map_lambda_to_role ::
  "role_entry pydict \<times> relationship list \<Rightarrow> lambda_function
     \<Rightarrow> role_entry pydict \<times> relationship list"
where
  "map_lambda_to_role st function =
     (case role function of
        None \<Rightarrow> st
      | Some role_arn \<Rightarrow>
         (if role_arn = [] then st
          else let rn = last_segment role_arn
               in case map_of (fst st) rn of
                    None \<Rightarrow> st
                  | Some entry \<Rightarrow>
                     (AList.map_entry rn
                        (\<lambda>en. en\<lparr>rm_resources := rm_resources en @ [lambda_resource_info function],
                                 rm_security_groups :=
                                   foldl (\<lambda>s g. set_add g s) (rm_security_groups en)
                                     (fn_security_groups function)\<rparr>) (fst st),
                      snd st @ [lambda_assumes rn function])))"

text \<open>
  \<open>set_order\<close> is what \<^verbatim>\<open>list(role_data["security_groups"])\<close> makes of the set: some
  enumeration of its members, in an order Python leaves to the hash of the strings.
\<close>

definition build_role_resource_map ::
  "(string list \<Rightarrow> string list) \<Rightarrow> relationship list \<Rightarrow> iam_data \<Rightarrow> resource_data
     \<Rightarrow> py_error + (role_entry pydict \<times> relationship list)"
where
  "build_role_resource_map set_order rels iam rd =
     (let role_map = foldl (\<lambda>m r. AList.update (role_name r) (init_role_entry r) m) [] (roles iam)
      in case fold_err map_ec2_to_role (ec2_instances rd) (role_map, rels) of
           Inl e \<Rightarrow> Inl e
         | Inr st \<Rightarrow>
            (let st' = foldl map_lambda_to_role st (lambda_functions rd)
             in Inr (map (\<lambda>(k, en). (k, en\<lparr>rm_security_groups := set_order (rm_security_groups en)\<rparr>))
                       (fst st'),
                     snd st')))"

subsection \<open>Security-group map\<close>

record sg_resource =
  sr_resource_type :: string
  sr_resource_id :: string
  sr_resource_name :: string
  sr_is_public :: "bool option"
  sr_iam_role :: "string option"
  sr_publicly_accessible :: "bool option"

record sg_entry =
  sm_group_id :: string
  sm_group_name :: string
  sm_vpc_id :: "string option"
  sm_has_internet_access :: bool
  sm_allows_all_traffic :: bool
  sm_resources :: "sg_resource list"

definition init_sg_entry :: "security_group \<Rightarrow> sg_entry" where
  "init_sg_entry sg =
     \<lparr>sm_group_id = group_id sg, sm_group_name = group_name sg, sm_vpc_id = vpc_id sg,
      sm_has_internet_access = has_internet_access sg,
      sm_allows_all_traffic = allows_all_traffic sg, sm_resources = []\<rparr>"

text \<open>The entry created for a group id that is referenced but was not enumerated.\<close>

definition synthesized_sg_entry :: "string \<Rightarrow> sg_entry" where
  "synthesized_sg_entry sg_id =
     \<lparr>sm_group_id = sg_id, sm_group_name = sg_id, sm_vpc_id = None,
      sm_has_internet_access = False, sm_allows_all_traffic = False, sm_resources = []\<rparr>"

definition protected_by :: "string \<Rightarrow> string \<Rightarrow> string \<Rightarrow> relationship" where
  "protected_by src src_type sg_id =
     \<lparr>rel_source = src, rel_source_type = src_type, rel_target = sg_id,
      rel_target_type = ''security_group'', relationship_type = ''protected_by''\<rparr>"

text \<open>
  The body shared by the three inner loops: create the entry if the id is no key yet,
  append the resource to the entry, append the relationship.
\<close>

definition attach_to_sg ::
  "sg_resource \<Rightarrow> sg_entry pydict \<times> relationship list \<Rightarrow> string
     \<Rightarrow> sg_entry pydict \<times> relationship list"
where
  "attach_to_sg res st sg_id =
     (let sg_map = (case map_of (fst st) sg_id of
                      None \<Rightarrow> AList.update sg_id (synthesized_sg_entry sg_id) (fst st)
                    | Some en \<Rightarrow> fst st)
      in (AList.map_entry sg_id (\<lambda>en. en\<lparr>sm_resources := sm_resources en @ [res]\<rparr>) sg_map,
          snd st @ [protected_by (sr_resource_id res) (sr_resource_type res) sg_id]))"

definition ec2_sg_resource :: "ec2_instance \<Rightarrow> sg_resource" where
  "ec2_sg_resource instance =
     \<lparr>sr_resource_type = ''ec2_instance'', sr_resource_id = instance_id instance,
      sr_resource_name = name instance, sr_is_public = Some (is_public instance),
      sr_iam_role = iam_instance_profile instance, sr_publicly_accessible = None\<rparr>"

definition lambda_sg_resource :: "lambda_function \<Rightarrow> sg_resource" where
  "lambda_sg_resource function =
     \<lparr>sr_resource_type = ''lambda_function'', sr_resource_id = function_name function,
      sr_resource_name = function_name function, sr_is_public = None,
      sr_iam_role = role function, sr_publicly_accessible = None\<rparr>"

definition rds_sg_resource :: "rds_instance \<Rightarrow> sg_resource" where
  "rds_sg_resource instance =
     \<lparr>sr_resource_type = ''rds_instance'', sr_resource_id = db_instance_identifier instance,
      sr_resource_name = db_instance_identifier instance, sr_is_public = None,
      sr_iam_role = None, sr_publicly_accessible = Some (publicly_accessible instance)\<rparr>"

text \<open>
  \<^verbatim>\<open>if sg_id not in sg_map\<close> hashes \<^verbatim>\<open>sg_id\<close>: with a dictionary as \<^verbatim>\<open>sg_id\<close> the test
  raises \<^verbatim>\<open>TypeError\<close>.
\<close>

fun attach_ec2_to_sg ::
  "ec2_instance \<Rightarrow> sg_entry pydict \<times> relationship list \<Rightarrow> sg_ref
     \<Rightarrow> py_error + (sg_entry pydict \<times> relationship list)"
where
  "attach_ec2_to_sg instance st (SgId sg_id) = Inr (attach_to_sg (ec2_sg_resource instance) st sg_id)"
| "attach_ec2_to_sg instance st (SgRec g n) = Inl TypeError"

definition build_security_group_map ::
  "relationship list \<Rightarrow> resource_data \<Rightarrow> py_error + (sg_entry pydict \<times> relationship list)"
where
  "build_security_group_map rels rd =
     (let sg_map = foldl (\<lambda>m sg. AList.update (group_id sg) (init_sg_entry sg) m) []
                     (security_groups rd)
      in case fold_err (\<lambda>st instance.
                 fold_err (attach_ec2_to_sg instance) (ec2_security_groups instance) st)
               (ec2_instances rd) (sg_map, rels) of
           Inl e \<Rightarrow> Inl e
         | Inr st1 \<Rightarrow>
            (let st2 = foldl (\<lambda>st function.
                          foldl (attach_to_sg (lambda_sg_resource function)) st
                            (fn_security_groups function))
                        st1 (lambda_functions rd);
                 st3 = foldl (\<lambda>st instance.
                          foldl (attach_to_sg (rds_sg_resource instance)) st
                            (rds_security_groups instance))
                        st2 (rds_instances rd)
             in Inr st3))"

subsection \<open>Consolidated view\<close>

text \<open>
  \<^verbatim>\<open>sg_id in sg_mappings and sg_mappings[sg_id].get("has_internet_access")\<close>, then the
  three steps of \<^verbatim>\<open>_calculate_role_risk\<close>. \<^verbatim>\<open>resource.get("is_public")\<close> is true only for a
  resource that has the key with a true value.
\<close>

definition sg_internet_accessible :: "sg_entry pydict \<Rightarrow> string \<Rightarrow> bool" where
  "sg_internet_accessible sg_mappings sg_id =
     (case map_of sg_mappings sg_id of
        None \<Rightarrow> False
      | Some en \<Rightarrow> sm_has_internet_access en)"

definition calculate_role_risk :: "role_entry \<Rightarrow> sg_entry pydict \<Rightarrow> int" where
  "calculate_role_risk role_data sg_mappings =
     (let s0 = (if rm_is_admin role_data then 0 + 50 else 0);
          s1 = foldl (\<lambda>s resource. if ri_is_public resource = Some True then s + 20 else s)
                 s0 (rm_resources role_data);
          s2 = foldl (\<lambda>s sg_id. if sg_internet_accessible sg_mappings sg_id then s + 15 else s)
                 s1 (rm_security_groups role_data)
      in min 100 s2)"

record sg_detail =
  sd_group_id :: string
  sd_group_name :: string
  sd_has_internet_access :: bool
  sd_resource_count :: nat

record role_view =
  rv_role_name :: string
  rv_role_arn :: string
  rv_role_type :: "string option"
  rv_is_admin :: bool
  rv_resource_count :: nat
  rv_security_group_count :: nat
  rv_resources_by_type :: "resource_info list pydict"
  rv_security_groups :: "sg_detail list"
  rv_risk_level :: int

definition group_by_type :: "resource_info list \<Rightarrow> resource_info list pydict" where
  "group_by_type resources =
     foldl (\<lambda>d resource.
              let d' = (case map_of d (ri_resource_type resource) of
                          None \<Rightarrow> AList.update (ri_resource_type resource) [] d
                        | Some l \<Rightarrow> d)
              in AList.map_entry (ri_resource_type resource) (\<lambda>l. l @ [resource]) d')
       [] resources"

definition sg_details :: "string list \<Rightarrow> sg_entry pydict \<Rightarrow> sg_detail list" where
  "sg_details sg_ids sg_mappings =
     concat (map (\<lambda>sg_id.
                    case map_of sg_mappings sg_id of
                      None \<Rightarrow> []
                    | Some sg_data \<Rightarrow>
                       [\<lparr>sd_group_id = sg_id, sd_group_name = sm_group_name sg_data,
                         sd_has_internet_access = sm_has_internet_access sg_data,
                         sd_resource_count = length (sm_resources sg_data)\<rparr>])
               sg_ids)"

definition make_role_view :: "sg_entry pydict \<Rightarrow> string \<times> role_entry \<Rightarrow> role_view" where
  "make_role_view sg_mappings kv =
     \<lparr>rv_role_name = fst kv, rv_role_arn = rm_role_arn (snd kv),
      rv_role_type = rm_role_type (snd kv), rv_is_admin = rm_is_admin (snd kv),
      rv_resource_count = length (rm_resources (snd kv)),
      rv_security_group_count = length (rm_security_groups (snd kv)),
      rv_resources_by_type = group_by_type (rm_resources (snd kv)),
      rv_security_groups = sg_details (rm_security_groups (snd kv)) sg_mappings,
      rv_risk_level = calculate_role_risk (snd kv) sg_mappings\<rparr>"

record consolidated =
  iam_roles :: "role_view list"
  orphaned_resources :: "resource_info list"

text \<open>Roles without resources are skipped; the stable sort is descending in the risk.\<close>

definition build_consolidated_view :: "role_entry pydict \<Rightarrow> sg_entry pydict \<Rightarrow> consolidated" where
  "build_consolidated_view role_mappings sg_mappings =
     \<lparr>iam_roles = sort_key (\<lambda>v. - rv_risk_level v)
                    (map (make_role_view sg_mappings)
                       (filter (\<lambda>kv. rm_resources (snd kv) \<noteq> []) role_mappings)),
      orphaned_resources = []\<rparr>"

text \<open>
  The security groups that a role owns through its resources: the ids that the resources
  in its entry refer to.
\<close>

definition owned_security_groups :: "role_entry \<Rightarrow> string set" where
  "owned_security_groups en =
     {g. \<exists>r \<in> set (rm_resources en). SgId g \<in> set (ri_security_groups r)}"

text \<open>
  What holds of every entry of the role map at each step of its construction: the
  security-group list has no repetition and holds exactly the owned groups.
\<close>

definition role_inv :: "role_entry \<Rightarrow> bool" where
  "role_inv en \<longleftrightarrow> distinct (rm_security_groups en)
      \<and> set (rm_security_groups en) = owned_security_groups en"

subsection \<open>Graph\<close>

text \<open>
  A node dictionary. The keys after \<open>node_group\<close> exist on some node types only.
  \<open>edge_to_next\<close> is the key that the path query of the serving layer writes into the
  stored node.
\<close>

record graph_node =
  node_id :: string
  node_label :: string
  node_type :: string
  node_group :: string
  node_is_admin :: "bool option"
  node_resource_count :: "nat option"
  node_has_internet_access :: "bool option"
  node_is_public :: "bool option"
  node_state :: "string option"
  node_runtime :: "string option"
  node_publicly_accessible :: "bool option"
  edge_to_next :: "string option"

record graph_edge =
  edge_source :: string
  edge_target :: string
  edge_type :: string

definition plain_node :: "string \<Rightarrow> string \<Rightarrow> string \<Rightarrow> string \<Rightarrow> graph_node" where
  "plain_node i l t g =
     \<lparr>node_id = i, node_label = l, node_type = t, node_group = g, node_is_admin = None,
      node_resource_count = None, node_has_internet_access = None, node_is_public = None,
      node_state = None, node_runtime = None, node_publicly_accessible = None,
      edge_to_next = None\<rparr>"

text \<open>\<^verbatim>\<open>if node_id not in node_ids: nodes.append(..); node_ids.add(node_id)\<close>.\<close>

definition add_node :: "graph_node list \<times> string set \<Rightarrow> graph_node \<Rightarrow> graph_node list \<times> string set" where
  "add_node st n =
     (if node_id n \<notin> snd st then (fst st @ [n], insert (node_id n) (snd st)) else st)"

definition role_node :: "string \<times> role_entry \<Rightarrow> graph_node" where
  "role_node kv =
     (plain_node (normalize_node_id ''iam_role'' (fst kv)) (fst kv) ''iam_role'' ''identity'')
       \<lparr>node_is_admin := Some (rm_is_admin (snd kv)),
        node_resource_count := Some (length (rm_resources (snd kv)))\<rparr>"

definition sg_node :: "string \<times> sg_entry \<Rightarrow> graph_node" where
  "sg_node kv =
     (plain_node (normalize_node_id ''security_group'' (fst kv)) (sm_group_name (snd kv))
        ''security_group'' ''network'')
       \<lparr>node_has_internet_access := Some (sm_has_internet_access (snd kv)),
        node_resource_count := Some (length (sm_resources (snd kv)))\<rparr>"

definition ec2_node :: "ec2_instance \<Rightarrow> graph_node" where
  "ec2_node instance =
     (plain_node (normalize_node_id ''ec2_instance'' (instance_id instance)) (name instance)
        ''ec2_instance'' ''compute'')
       \<lparr>node_is_public := Some (is_public instance), node_state := state instance\<rparr>"

definition lambda_node :: "lambda_function \<Rightarrow> graph_node" where
  "lambda_node function =
     (plain_node (normalize_node_id ''lambda_function'' (function_name function))
        (function_name function) ''lambda_function'' ''compute'')
       \<lparr>node_runtime := runtime function\<rparr>"

definition s3_node :: "s3_bucket \<Rightarrow> graph_node" where
  "s3_node bucket =
     (plain_node (normalize_node_id ''s3_bucket'' (bucket_name bucket)) (bucket_name bucket)
        ''s3_bucket'' ''storage'')
       \<lparr>node_is_public := Some (bucket_is_public bucket)\<rparr>"

definition rds_node :: "rds_instance \<Rightarrow> graph_node" where
  "rds_node instance =
     (plain_node (normalize_node_id ''rds_instance'' (db_instance_identifier instance))
        (db_instance_identifier instance) ''rds_instance'' ''database'')
       \<lparr>node_publicly_accessible := Some (publicly_accessible instance)\<rparr>"

definition internet_node :: graph_node where
  "internet_node = plain_node ''internet'' ''Internet (0.0.0.0/0)'' ''internet'' ''external''"

text \<open>
  All node loops in the order of the source; the Internet node is appended without a
  membership test.
\<close>

definition graph_nodes ::
  "role_entry pydict \<Rightarrow> sg_entry pydict \<Rightarrow> resource_data \<Rightarrow> graph_node list \<times> string set"
where
  "graph_nodes role_mappings sg_mappings rd =
     (let st1 = foldl add_node ([], {})
                  (map role_node (filter (\<lambda>kv. rm_resources (snd kv) \<noteq> []) role_mappings));
          st2 = foldl add_node st1
                  (map sg_node (filter (\<lambda>kv. sm_resources (snd kv) \<noteq> []) sg_mappings));
          st3 = foldl add_node st2 (map ec2_node (ec2_instances rd));
          st4 = foldl add_node st3 (map lambda_node (lambda_functions rd));
          st5 = foldl add_node st4 (map s3_node (s3_buckets rd));
          st6 = foldl add_node st5 (map rds_node (rds_instances rd))
      in (fst st6 @ [internet_node], insert ''internet'' (snd st6)))"

definition rel_edge :: "relationship \<Rightarrow> graph_edge" where
  "rel_edge rel =
     \<lparr>edge_source = normalize_node_id (rel_source_type rel) (rel_source rel),
      edge_target = normalize_node_id (rel_target_type rel) (rel_target rel),
      edge_type = relationship_type rel\<rparr>"

text \<open>\<^verbatim>\<open>if source_id in node_ids and target_id in node_ids\<close>, then the edge is appended.\<close>

definition relationship_edges :: "string set \<Rightarrow> relationship list \<Rightarrow> graph_edge list" where
  "relationship_edges node_ids rels =
     map rel_edge
       (filter (\<lambda>rel. edge_source (rel_edge rel) \<in> node_ids \<and> edge_target (rel_edge rel) \<in> node_ids)
          rels)"

definition internet_edges :: "string set \<Rightarrow> sg_entry pydict \<Rightarrow> graph_edge list" where
  "internet_edges node_ids sg_mappings =
     map (\<lambda>kv. \<lparr>edge_source = normalize_node_id ''security_group'' (fst kv),
                 edge_target = ''internet'', edge_type = ''allows_traffic_from''\<rparr>)
       (filter (\<lambda>kv. sm_has_internet_access (snd kv)
                     \<and> normalize_node_id ''security_group'' (fst kv) \<in> node_ids)
          sg_mappings)"

record node_type_counts =
  count_iam_roles :: nat
  count_security_groups :: nat
  count_ec2_instances :: nat
  count_lambda_functions :: nat
  count_s3_buckets :: nat
  count_rds_instances :: nat

record graph_stats =
  total_nodes :: nat
  total_edges :: nat
  node_types :: node_type_counts

record graph_data =
  nodes :: "graph_node list"
  edges :: "graph_edge list"
  stats :: graph_stats

definition count_type :: "string \<Rightarrow> graph_node list \<Rightarrow> nat" where
  "count_type t ns = length (filter (\<lambda>n. node_type n = t) ns)"

text \<open>\<open>rels\<close> is \<^verbatim>\<open>self.relationships\<close> as the method finds it.\<close>

definition build_graph_data ::
  "relationship list \<Rightarrow> role_entry pydict \<Rightarrow> sg_entry pydict \<Rightarrow> resource_data \<Rightarrow> graph_data"
where
  "build_graph_data rels role_mappings sg_mappings rd =
     (let st = graph_nodes role_mappings sg_mappings rd;
          es = relationship_edges (snd st) rels @ internet_edges (snd st) sg_mappings
      in \<lparr>nodes = fst st, edges = es,
          stats = \<lparr>total_nodes = length (fst st), total_edges = length es,
                   node_types =
                     \<lparr>count_iam_roles = count_type ''iam_role'' (fst st),
                      count_security_groups = count_type ''security_group'' (fst st),
                      count_ec2_instances = count_type ''ec2_instance'' (fst st),
                      count_lambda_functions = count_type ''lambda_function'' (fst st),
                      count_s3_buckets = count_type ''s3_bucket'' (fst st),
                      count_rds_instances = count_type ''rds_instance'' (fst st)\<rparr>\<rparr>\<rparr>)"

subsection \<open>build_relationships\<close>

record build_summary =
  total_roles :: nat
  total_security_groups :: nat
  total_relationships :: nat
  roles_with_resources :: nat
  security_groups_with_internet :: nat

record build_result =
  role_mappings :: "role_entry pydict"
  security_group_mappings :: "sg_entry pydict"
  consolidated_view :: consolidated
  graph :: graph_data
  build_summary :: build_summary

text \<open>\<^verbatim>\<open>RelationshipBuilder.__init__\<close>: the accumulator starts empty.\<close>

definition RelationshipBuilder_init :: "relationship list" where
  "RelationshipBuilder_init = []"

text \<open>
  \<open>rels\<close> is \<^verbatim>\<open>self.relationships\<close> before the call; the second component of the result is
  \<^verbatim>\<open>self.relationships\<close> after it.
\<close>

definition build_relationships ::
  "(string list \<Rightarrow> string list) \<Rightarrow> relationship list \<Rightarrow> iam_data \<Rightarrow> resource_data
     \<Rightarrow> py_error + (build_result \<times> relationship list)"
where
  "build_relationships set_order rels iam rd =
     (case build_role_resource_map set_order rels iam rd of
        Inl e \<Rightarrow> Inl e
      | Inr (role_map, rels1) \<Rightarrow>
         (case build_security_group_map rels1 rd of
            Inl e \<Rightarrow> Inl e
          | Inr (sg_map, rels2) \<Rightarrow>
             Inr (\<lparr>role_mappings = role_map,
                   security_group_mappings = sg_map,
                   consolidated_view = build_consolidated_view role_map sg_map,
                   graph = build_graph_data rels2 role_map sg_map rd,
                   build_summary =
                     \<lparr>total_roles = length role_map,
                      total_security_groups = length sg_map,
                      total_relationships = length rels2,
                      roles_with_resources =
                        length (filter (\<lambda>kv. rm_resources (snd kv) \<noteq> []) role_map),
                      security_groups_with_internet =
                        length (filter (\<lambda>kv. sm_has_internet_access (snd kv)) sg_map)\<rparr>\<rparr>,
                  rels2)))"

text \<open>
  How a result that carries the accumulator relates to the result of the same call on an
  empty accumulator: \<open>rels\<close> is put in front.
\<close>

definition with_acc ::
  "relationship list \<Rightarrow> py_error + ('m \<times> relationship list) \<Rightarrow> py_error + ('m \<times> relationship list)"
where
  "with_acc rels res = (case res of Inl e \<Rightarrow> Inl e | Inr p \<Rightarrow> Inr (fst p, rels @ snd p))"

section \<open>The access-path query of the serving layer\<close>

text \<open>
  \<^verbatim>\<open>get_access_path\<close> in \<^verbatim>\<open>api/routes/relationships.py\<close>, from the point where the stored
  graph of the scan has been fetched. The adjacency dictionary maps a source id to the
  list of \<^verbatim>\<open>{"target", "type"}\<close> entries of its edges, in the order of the edge list.
\<close>

definition build_adjacency :: "graph_edge list \<Rightarrow> (string \<times> string) list pydict" where
  "build_adjacency es =
     foldl (\<lambda>adjacency edge.
              let adjacency' = (case map_of adjacency (edge_source edge) of
                                  None \<Rightarrow> AList.update (edge_source edge) [] adjacency
                                | Some l \<Rightarrow> adjacency)
              in AList.map_entry (edge_source edge)
                   (\<lambda>l. l @ [(edge_target edge, edge_type edge)]) adjacency')
       [] es"

text \<open>\<^verbatim>\<open>adjacency.get(current, [])\<close>.\<close>

definition neighbors :: "(string \<times> string) list pydict \<Rightarrow> string \<Rightarrow> (string \<times> string) list" where
  "neighbors adjacency current =
     (case map_of adjacency current of None \<Rightarrow> [] | Some l \<Rightarrow> l)"

text \<open>
  One turn of the loop over the neighbours of the node taken from the queue: a neighbour
  that was not visited is marked visited and appended to the queue with its path.
\<close>

definition visit ::
  "string list \<Rightarrow> (string \<times> string list) list \<times> string set \<Rightarrow> string \<times> string
     \<Rightarrow> (string \<times> string list) list \<times> string set"
where
  "visit path st neighbor =
     (if fst neighbor \<notin> snd st
      then (fst st @ [(fst neighbor, path @ [fst neighbor])], insert (fst neighbor) (snd st))
      else st)"

text \<open>
  The \<^verbatim>\<open>while queue\<close> loop: \<open>Some path\<close> when the node taken from the queue is the target,
  \<open>None\<close> when the queue runs empty.
\<close>

function bfs ::
  "(string \<times> string) list pydict \<Rightarrow> string \<Rightarrow> (string \<times> string list) list \<Rightarrow> string set
     \<Rightarrow> string list option"
where
  "bfs adjacency target [] visited = None"
| "bfs adjacency target ((current, path) # queue) visited =
     (if current = target then Some path
      else bfs adjacency target
             (fst (foldl (visit path) (queue, visited) (neighbors adjacency current)))
             (snd (foldl (visit path) (queue, visited) (neighbors adjacency current))))"
  by pat_completeness auto

text \<open>
  The loop ends: a turn either marks a target of some edge that was not visited before,
  of which there are finitely many, or it leaves the visited set alone and shortens the
  queue.
\<close>

termination bfs
proof (relation "measures [\<lambda>(adjacency, target, queue, visited).
                              card ((\<Union>kv \<in> set adjacency. fst ` set (snd kv)) - visited),
                            \<lambda>(adjacency, target, queue, visited). length queue]")
  show "wf (measures [\<lambda>(adjacency :: (string \<times> string) list pydict, target :: string,
                         queue :: (string \<times> string list) list, visited).
                              card ((\<Union>kv \<in> set adjacency. fst ` set (snd kv)) - visited),
                            \<lambda>(adjacency, target, queue, visited). length queue])"
    by simp
next
  fix adjacency :: "(string \<times> string) list pydict"
    and target current :: string and path :: "string list"
    and queue :: "(string \<times> string list) list" and visited :: "string set"
  let ?T = "\<Union>kv \<in> set adjacency. fst ` set (snd kv)"
  let ?nbs = "neighbors adjacency current"
  let ?r = "foldl (visit path) (queue, visited) ?nbs"
  have fin: "finite ?T" by simp
  have sub: "fst ` set ?nbs \<subseteq> ?T"
  proof (cases "map_of adjacency current")
    case None
    then show ?thesis by (simp add: neighbors_def)
  next
    case (Some l)
    then have "(current, l) \<in> set adjacency" by (rule map_of_SomeD)
    then have "fst ` set l \<subseteq> ?T" by force
    with Some show ?thesis by (simp add: neighbors_def)
  qed
  have step: "visited \<subseteq> snd (foldl (visit path) (q, visited) nbs)
      \<and> snd (foldl (visit path) (q, visited) nbs) \<subseteq> visited \<union> fst ` set nbs
      \<and> (snd (foldl (visit path) (q, visited) nbs) = visited
            \<longrightarrow> fst (foldl (visit path) (q, visited) nbs) = q)"
    for q :: "(string \<times> string list) list" and nbs :: "(string \<times> string) list"
  proof (induction nbs arbitrary: q visited)
    case Nil
    show ?case by simp
  next
    case (Cons nb nbs)
    show ?case
    proof (cases "fst nb \<in> visited")
      case True
      then have "visit path (q, visited) nb = (q, visited)" by (simp add: visit_def)
      with Cons.IH [where q = q and visited = visited] True show ?thesis by auto
    next
      case False
      then have v: "visit path (q, visited) nb
          = (q @ [(fst nb, path @ [fst nb])], insert (fst nb) visited)"
        by (simp add: visit_def)
      from Cons.IH [where visited = "insert (fst nb) visited" and q = "q @ [(fst nb, path @ [fst nb])]"] False v
      show ?thesis by auto
    qed
  qed
  assume "current \<noteq> target"
  show "((adjacency, target, fst ?r, snd ?r), (adjacency, target, (current, path) # queue, visited))
        \<in> measures [\<lambda>(adjacency, target, queue, visited).
                              card ((\<Union>kv \<in> set adjacency. fst ` set (snd kv)) - visited),
                     \<lambda>(adjacency, target, queue, visited). length queue]"
  proof (cases "snd ?r = visited")
    case True
    with step [of queue ?nbs] have "fst ?r = queue" by blast
    with True show ?thesis by (simp add: case_prod_beta)
  next
    case False
    from step [of queue ?nbs] have a: "visited \<subseteq> snd ?r"
      and b: "snd ?r \<subseteq> visited \<union> fst ` set ?nbs"
      by simp_all
    from False a obtain x where x: "x \<in> snd ?r" "x \<notin> visited" by auto
    from b x(1) have "x \<in> visited \<union> fst ` set ?nbs" by (rule subsetD)
    with x(2) have "x \<in> fst ` set ?nbs" by simp
    with sub have "x \<in> ?T" by (rule subsetD)
    with x have "x \<in> ?T - visited" "x \<notin> ?T - snd ?r" by simp_all
    moreover from a have "?T - snd ?r \<subseteq> ?T - visited" by (rule Diff_mono [OF subset_refl])
    ultimately have "?T - snd ?r \<subset> ?T - visited" by (metis psubsetI)
    moreover have "finite (?T - visited)" using fin by simp
    ultimately have "card (?T - snd ?r) < card (?T - visited)"
      by (rule psubset_card_mono [rotated])
    then show ?thesis by (simp add: case_prod_beta)
  qed
qed

text \<open>
  An element of the returned \<^verbatim>\<open>path\<close>: the stored node dictionary of the id, or, for an id
  without a stored node, the dictionary \<^verbatim>\<open>{"id": node_id, "label": node_id}\<close> made on the
  spot, with the key \<^verbatim>\<open>edge_to_next\<close> when it was written.
\<close>

datatype path_entry =
    StoredNode graph_node
  | DefaultNode string string "string option"

fun entry_id :: "path_entry \<Rightarrow> string" where
  "entry_id (StoredNode n) = node_id n"
| "entry_id (DefaultNode i l e) = i"

fun entry_edge_to_next :: "path_entry \<Rightarrow> string option" where
  "entry_edge_to_next (StoredNode n) = edge_to_next n"
| "entry_edge_to_next (DefaultNode i l e) = e"

text \<open>
  The two response bodies: \<^verbatim>\<open>{source, target, path_length, path}\<close> and
  \<^verbatim>\<open>{source, target, path_found: False, message}\<close>.
\<close>

datatype path_result =
    PathFound string string int "path_entry list"
  | NoPathFound string string

text \<open>
  \<^verbatim>\<open>nodes = {node["id"]: node for node in ...}\<close>: of several nodes with one id the dictionary
  keeps the last. Its values are the node objects of the stored list themselves.
\<close>

definition lookup_node :: "graph_node list \<Rightarrow> string \<Rightarrow> graph_node option" where
  "lookup_node ns nid = find (\<lambda>n. node_id n = nid) (rev ns)"

text \<open>
  \<^verbatim>\<open>next((e["type"] for e in edges if e["source"] == node_id and e["target"] == next_node),
  "connected_to")\<close>.
\<close>

definition edge_type_between :: "graph_edge list \<Rightarrow> string \<Rightarrow> string \<Rightarrow> string" where
  "edge_type_between es a b =
     (case find (\<lambda>e. edge_source e = a \<and> edge_target e = b) es of
        None \<Rightarrow> ''connected_to''
      | Some e \<Rightarrow> edge_type e)"

fun update_first :: "('a \<Rightarrow> bool) \<Rightarrow> ('a \<Rightarrow> 'a) \<Rightarrow> 'a list \<Rightarrow> 'a list" where
  "update_first P f [] = []"
| "update_first P f (x # xs) = (if P x then f x # xs else x # update_first P f xs)"

text \<open>
  \<^verbatim>\<open>path_details[-1]["edge_to_next"] = edge_type\<close> where the element is a stored node: the
  assignment writes into the node object of the stored graph.
\<close>

definition set_edge_to_next :: "string \<Rightarrow> string \<Rightarrow> graph_node list \<Rightarrow> graph_node list" where
  "set_edge_to_next nid ty ns =
     rev (update_first (\<lambda>n. node_id n = nid) (\<lambda>n. n\<lparr>edge_to_next := Some ty\<rparr>) (rev ns))"

text \<open>The stored nodes after the loop over the path.\<close>

fun annotate_stored :: "graph_edge list \<Rightarrow> string list \<Rightarrow> graph_node list \<Rightarrow> graph_node list" where
  "annotate_stored es [] ns = ns"
| "annotate_stored es [x] ns = ns"
| "annotate_stored es (x # y # p) ns =
     annotate_stored es (y # p) (set_edge_to_next x (edge_type_between es x y) ns)"

text \<open>
  The list \<^verbatim>\<open>path_details\<close> as it is returned, read off the stored nodes \<open>ns\<close> as the loop
  left them: an element for a stored node is that node object, an element for another id
  is a dictionary of its own.
\<close>

definition path_entry_of :: "graph_node list \<Rightarrow> string \<Rightarrow> string option \<Rightarrow> path_entry" where
  "path_entry_of ns nid e =
     (case lookup_node ns nid of Some n \<Rightarrow> StoredNode n | None \<Rightarrow> DefaultNode nid nid e)"

fun path_details :: "graph_edge list \<Rightarrow> graph_node list \<Rightarrow> string list \<Rightarrow> path_entry list" where
  "path_details es ns [] = []"
| "path_details es ns [x] = [path_entry_of ns x None]"
| "path_details es ns (x # y # p) =
     path_entry_of ns x (Some (edge_type_between es x y)) # path_details es ns (y # p)"

text \<open>
  The query on the stored graph \<open>g\<close>: the response, and the stored graph as the query
  leaves it.
\<close>

definition get_access_path :: "graph_data \<Rightarrow> string \<Rightarrow> string \<Rightarrow> path_result \<times> graph_data" where
  "get_access_path g source target =
     (case bfs (build_adjacency (edges g)) target [(source, [source])] {source} of
        Some path \<Rightarrow>
          (let ns = annotate_stored (edges g) path (nodes g)
           in (PathFound source target (int (length path) - 1) (path_details (edges g) ns path),
               g\<lparr>nodes := ns\<rparr>))
      | None \<Rightarrow> (NoPathFound source target, g))"

subsection \<open>Paths in the edge list\<close>

text \<open>
  The targets of the edges that leave \<open>a\<close>, in the order of the edge list; \<open>p\<close> is a path
  from \<open>s\<close> to \<open>t\<close> when it starts in \<open>s\<close>, ends in \<open>t\<close> and every two consecutive ids are
  joined by an edge.
\<close>

definition out_targets :: "graph_edge list \<Rightarrow> string \<Rightarrow> string list" where
  "out_targets es a = map edge_target (filter (\<lambda>e. edge_source e = a) es)"

definition has_edge :: "graph_edge list \<Rightarrow> string \<Rightarrow> string \<Rightarrow> bool" where
  "has_edge es a b \<longleftrightarrow> b \<in> set (out_targets es a)"

fun walk :: "graph_edge list \<Rightarrow> string list \<Rightarrow> bool" where
  "walk es [] = False"
| "walk es [x] = True"
| "walk es (x # y # p) = (has_edge es x y \<and> walk es (y # p))"

definition path_from_to :: "graph_edge list \<Rightarrow> string \<Rightarrow> string \<Rightarrow> string list \<Rightarrow> bool" where
  "path_from_to es s t p \<longleftrightarrow> walk es p \<and> hd p = s \<and> last p = t"

text \<open>
  The order in which the edges are discovered: \<open>edge_rank es a b\<close> is the place of \<open>b\<close>
  among the targets of \<open>a\<close>, and \<open>edge_ranks\<close> lists the places of the edges that a path
  takes. Of two paths of the same length, the one whose list comes first in the dictionary
  order takes the earlier edge where the two part.
\<close>

definition edge_rank :: "graph_edge list \<Rightarrow> string \<Rightarrow> string \<Rightarrow> nat" where
  "edge_rank es a b = length (takeWhile (\<lambda>x. x \<noteq> b) (out_targets es a))"

fun edge_ranks :: "graph_edge list \<Rightarrow> string list \<Rightarrow> nat list" where
  "edge_ranks es [] = []"
| "edge_ranks es [x] = []"
| "edge_ranks es (x # y # p) = edge_rank es x y # edge_ranks es (y # p)"

definition discovered_before :: "graph_edge list \<Rightarrow> string list \<Rightarrow> string list \<Rightarrow> bool" where
  "discovered_before es p q \<longleftrightarrow>
     length p < length q \<or> (length p = length q \<and> ord_class.lexordp (edge_ranks es p) (edge_ranks es q))"

text \<open>
  \<open>p\<close> is the first path from \<open>s\<close> to \<open>v\<close>: no path from \<open>s\<close> to \<open>v\<close> is shorter, and of those
  of the same length all others come later in the order of discovery.
\<close>

definition first_path :: "graph_edge list \<Rightarrow> string \<Rightarrow> string \<Rightarrow> string list \<Rightarrow> bool" where
  "first_path es s v p \<longleftrightarrow>
     path_from_to es s v p \<and> (\<forall>w. path_from_to es s v w \<longrightarrow> w = p \<or> discovered_before es p w)"

text \<open>The neighbours that a turn of the loop appends: those not visited, each once, in order.\<close>

fun unseen :: "string set \<Rightarrow> string list \<Rightarrow> string list" where
  "unseen V [] = []"
| "unseen V (x # xs) = (if x \<in> V then unseen V xs else x # unseen (insert x V) xs)"

text \<open>
  What holds of the queue and the visited set whenever the loop tests its condition: every
  queued path is the first path to its node and lies within the visited set, the queue is
  in the order of discovery, every queued path but the initial one extends a path
  that comes before the head of the queue, and a visited node that is not queued is not
  the target and has all its neighbours visited.
\<close>

definition bfs_inv ::
  "graph_edge list \<Rightarrow> string \<Rightarrow> string \<Rightarrow> (string \<times> string list) list \<Rightarrow> string set \<Rightarrow> bool"
where
  "bfs_inv es s t q V \<longleftrightarrow>
     (\<forall>vp \<in> set q. first_path es s (fst vp) (snd vp) \<and> distinct (snd vp) \<and> set (snd vp) \<subseteq> V)
     \<and> sorted_wrt (discovered_before es) (map snd q)
     \<and> (\<forall>vp \<in> set q. snd vp = [s] \<or> discovered_before es (butlast (snd vp)) (snd (hd q)))
     \<and> s \<in> V
     \<and> (\<forall>u \<in> V. u \<notin> fst ` set q \<longrightarrow> u \<noteq> t \<and> set (out_targets es u) \<subseteq> V)"

section \<open>Concrete inputs\<close>

text \<open>
  A small account: one admin role \<open>ops\<close> with one policy, one user whose ARN is the same
  string as the role's, a public instance running as \<open>ops\<close> behind a security group that
  admits no traffic from the Internet.
\<close>

definition ex_role :: iam_role where
  "ex_role = \<lparr>role_name = ''ops'', arn = ''arn:aws:iam::1:role/ops'', role_type = None,
               is_admin = True,
               attached_policies = [\<lparr>policy_name = ''AdministratorAccess'', policy_arn = ''arn:p1''\<rparr>]\<rparr>"

definition ex_user :: iam_user where
  "ex_user = \<lparr>username = ''bob'', user_arn = Some ''arn:aws:iam::1:role/ops'', mfa_enabled = True,
               is_inactive = False, access_keys = [],
               user_attached_policies = [\<lparr>policy_name = ''ReadOnly'', policy_arn = ''arn:p2''\<rparr>]\<rparr>"

definition ex_iam :: iam_data where
  "ex_iam = \<lparr>account_id = Some ''1'', roles = [ex_role], users = [ex_user]\<rparr>"

definition ex_instance :: ec2_instance where
  "ex_instance = \<lparr>instance_id = ''i-1'', name = ''web'', is_public = True,
      ec2_security_groups = [SgRec ''sg-1'' ''locked''],
      iam_instance_profile = Some ''ops'', state = Some ''running''\<rparr>"

definition ex_sg :: security_group where
  "ex_sg = \<lparr>group_id = ''sg-1'', group_name = ''locked'', vpc_id = None,
      has_internet_access = False, allows_all_traffic = False, risky_rules = []\<rparr>"

definition ex_rd :: resource_data where
  "ex_rd = \<lparr>region = None, ec2_instances = [ex_instance], lambda_functions = [],
      s3_buckets = [], rds_instances = [], security_groups = [ex_sg]\<rparr>"

text \<open>The settings with the critical threshold lowered to 80.\<close>

definition ex_cfg80 :: settings where
  "ex_cfg80 = \<lparr>risk_critical_threshold = 80, risk_high_threshold = 70,
      risk_medium_threshold = 40, enable_cis_benchmark = True\<rparr>"



text \<open>
  The same account with the references on the instance given as plain id strings: the
  instance refers to \<open>sg-999\<close>, which is not enumerated; a function and a database refer
  to the enumerated, Internet-facing \<open>sg-1\<close>.
\<close>

definition ex_instance_ids :: ec2_instance where
  "ex_instance_ids = \<lparr>instance_id = ''i-1'', name = ''web'', is_public = True,
      ec2_security_groups = [SgId ''sg-999''],
      iam_instance_profile = Some ''ops'', state = Some ''running''\<rparr>"

definition ex_function :: lambda_function where
  "ex_function = \<lparr>function_name = ''fn'', runtime = Some ''python3.12'',
      role = Some ''arn:aws:iam::1:role/ops'', is_in_vpc = True,
      fn_security_groups = [''sg-1'']\<rparr>"

definition ex_rds :: rds_instance where
  "ex_rds = \<lparr>db_instance_identifier = ''db'', publicly_accessible = False, encrypted = True,
      rds_security_groups = [''sg-1'']\<rparr>"

definition ex_sg_open :: security_group where
  "ex_sg_open = \<lparr>group_id = ''sg-1'', group_name = ''open'', vpc_id = None,
      has_internet_access = True, allows_all_traffic = False,
      risky_rules = [\<lparr>protocol = ''tcp'', from_port = Some 22, to_port = Some 22,
                      cidr = ''0.0.0.0/0''\<rparr>]\<rparr>"

definition ex_rd_ids :: resource_data where
  "ex_rd_ids = \<lparr>region = None, ec2_instances = [ex_instance_ids],
      lambda_functions = [ex_function], s3_buckets = [], rds_instances = [ex_rds],
      security_groups = [ex_sg_open]\<rparr>"

text \<open>
  An instance without a role, as \<^verbatim>\<open>_get_ec2_details\<close> emits it: its reference to the
  group \<open>sg-999\<close>, which is not enumerated, is a dictionary.
\<close>

definition ex_orphan_instance :: ec2_instance where
  "ex_orphan_instance = \<lparr>instance_id = ''i-2'', name = ''batch'', is_public = False,
      ec2_security_groups = [SgRec ''sg-999'' ''orphan''],
      iam_instance_profile = None, state = Some ''running''\<rparr>"

definition ex_rd_orphan :: resource_data where
  "ex_rd_orphan = \<lparr>region = None, ec2_instances = [ex_orphan_instance],
      lambda_functions = [], s3_buckets = [], rds_instances = [], security_groups = []\<rparr>"

text \<open>A relationship left over from an earlier call, about a role and an instance that are gone.\<close>

definition ex_stale :: relationship where
  "ex_stale = \<lparr>rel_source = ''old-role'', rel_source_type = ''iam_role'',
      rel_target = ''i-0'', rel_target_type = ''ec2_instance'',
      relationship_type = ''assumes''\<rparr>"

text \<open>
  The account as a scan without compute instances delivers it: a function in two security
  groups, of which \<open>sg-2\<close> is not enumerated, and a database in \<open>sg-1\<close>.
\<close>

definition ex_function2 :: lambda_function where
  "ex_function2 = \<lparr>function_name = ''fn'', runtime = Some ''python3.12'',
      role = Some ''arn:aws:iam::1:role/ops'', is_in_vpc = True,
      fn_security_groups = [''sg-1'', ''sg-2'']\<rparr>"

definition ex_rd_vpc :: resource_data where
  "ex_rd_vpc = \<lparr>region = None, ec2_instances = [],
      lambda_functions = [ex_function2], s3_buckets = [], rds_instances = [ex_rds],
      security_groups = [ex_sg_open]\<rparr>"

text \<open>
  Runs on these inputs. A fresh builder whose sets enumerate in insertion order, a fresh
  builder in a process whose sets enumerate in the reverse order, and a second call on the
  first builder; a fresh analyzer, a fresh analyzer one second later, and a second call on
  the first analyzer.
\<close>

definition fresh_build :: "py_error + (build_result \<times> relationship list)" where
  "fresh_build = build_relationships id RelationshipBuilder_init ex_iam ex_rd_vpc"

definition fresh_build_other_order :: "py_error + (build_result \<times> relationship list)" where
  "fresh_build_other_order = build_relationships rev RelationshipBuilder_init ex_iam ex_rd_vpc"

definition reused_build :: "py_error + (build_result \<times> relationship list)" where
  "reused_build = build_relationships rev (snd (projr fresh_build)) ex_iam ex_rd_vpc"

definition fresh_analysis :: "py_error + (analysis \<times> risk_scores)" where
  "fresh_analysis =
     analyze_all default_settings ''2026-01-01T00:00:00'' RiskAnalyzer_init ex_iam ex_rd_vpc"

definition fresh_analysis_later :: "py_error + (analysis \<times> risk_scores)" where
  "fresh_analysis_later =
     analyze_all default_settings ''2026-01-01T00:00:01'' RiskAnalyzer_init ex_iam ex_rd_vpc"

definition reused_analysis :: "py_error + (analysis \<times> risk_scores)" where
  "reused_analysis =
     analyze_all default_settings ''2026-01-01T00:00:00'' (snd (projr fresh_analysis)) ex_iam ex_rd_vpc"

text \<open>
  A stored graph for the path query: the chain from a role over an instance and its
  security group to the Internet node, and an edge from the group back to the role.
\<close>

definition ex_path_graph :: graph_data where
  "ex_path_graph =
     \<lparr>nodes = [plain_node ''role-A'' ''A'' ''iam_role'' ''identity'',
               plain_node ''ec2-B'' ''B'' ''ec2_instance'' ''compute'',
               plain_node ''sg-C'' ''C'' ''security_group'' ''network'',
               plain_node ''internet'' ''Internet (0.0.0.0/0)'' ''internet'' ''external''],
      edges = [\<lparr>edge_source = ''role-A'', edge_target = ''ec2-B'', edge_type = ''assumes''\<rparr>,
               \<lparr>edge_source = ''ec2-B'', edge_target = ''sg-C'', edge_type = ''protected_by''\<rparr>,
               \<lparr>edge_source = ''sg-C'', edge_target = ''internet'',
                 edge_type = ''allows_traffic_from''\<rparr>,
               \<lparr>edge_source = ''sg-C'', edge_target = ''role-A'', edge_type = ''trusts''\<rparr>],
      stats = \<lparr>total_nodes = 4, total_edges = 4,
                node_types = \<lparr>count_iam_roles = 1, count_security_groups = 1,
                               count_ec2_instances = 1, count_lambda_functions = 0,
                               count_s3_buckets = 0, count_rds_instances = 0\<rparr>\<rparr>\<rparr>"

text \<open>
  A stored graph with a tie and a cycle: the role reaches the security group over a
  function and over an instance, the edge to the function is listed first and a second
  time at the end with another type, and the group has an edge back to the role.
\<close>

definition ex_diamond_graph :: graph_data where
  "ex_diamond_graph =
     \<lparr>nodes = [plain_node ''role-A'' ''A'' ''iam_role'' ''identity'',
               plain_node ''ec2-B'' ''B'' ''ec2_instance'' ''compute'',
               plain_node ''lambda-C'' ''C'' ''lambda_function'' ''compute'',
               plain_node ''sg-D'' ''D'' ''security_group'' ''network'',
               plain_node ''internet'' ''Internet (0.0.0.0/0)'' ''internet'' ''external''],
      edges = [\<lparr>edge_source = ''role-A'', edge_target = ''lambda-C'', edge_type = ''assumes''\<rparr>,
               \<lparr>edge_source = ''role-A'', edge_target = ''ec2-B'', edge_type = ''assumes''\<rparr>,
               \<lparr>edge_source = ''ec2-B'', edge_target = ''sg-D'', edge_type = ''protected_by''\<rparr>,
               \<lparr>edge_source = ''lambda-C'', edge_target = ''sg-D'', edge_type = ''protected_by''\<rparr>,
               \<lparr>edge_source = ''sg-D'', edge_target = ''internet'',
                 edge_type = ''allows_traffic_from''\<rparr>,
               \<lparr>edge_source = ''sg-D'', edge_target = ''role-A'', edge_type = ''trusts''\<rparr>,
               \<lparr>edge_source = ''role-A'', edge_target = ''lambda-C'', edge_type = ''invokes''\<rparr>],
      stats = \<lparr>total_nodes = 5, total_edges = 7,
                node_types = \<lparr>count_iam_roles = 1, count_security_groups = 1,
                               count_ec2_instances = 1, count_lambda_functions = 1,
                               count_s3_buckets = 0, count_rds_instances = 0\<rparr>\<rparr>\<rparr>"

section \<open>Properties of the risk analyzer\<close>

lemma has_risky_sg_loop_True: "has_risky_sg_loop True sgs = True"
  by (induction sgs) auto

lemma has_risky_sg_loop_False: "has_risky_sg_loop False sgs = (sgs \<noteq> [])"
  by (cases sgs) (auto simp: has_risky_sg_loop_True)

lemma identity_rule_table:
  "(severity (user_mfa_risk u), risk_score (user_mfa_risk u)) \<in> rule_table"
  "(severity (user_inactive_risk u), risk_score (user_inactive_risk u)) \<in> rule_table"
  "(severity (role_admin_risk r), risk_score (role_admin_risk r)) \<in> rule_table"
  "(severity (user_multikey_risk u), risk_score (user_multikey_risk u)) \<in> rule_table"
  by (simp_all add: rule_table_def user_mfa_risk_def user_inactive_risk_def
      role_admin_risk_def user_multikey_risk_def)

lemma identity_risks_table:
  assumes "f \<in> set (analyze_identity_risks iam)"
  shows "(severity f, risk_score f) \<in> rule_table"
proof -
  from assms consider u where "f = user_mfa_risk u" | u where "f = user_inactive_risk u"
    | r where "f = role_admin_risk r" | u where "f = user_multikey_risk u"
    unfolding analyze_identity_risks_def set_append set_map by blast
  then show ?thesis
    by cases (simp_all add: identity_rule_table)
qed

lemma ec2_public_risk_table:
  assumes "ec2_public_risk i = Inr f"
  shows "(severity f, risk_score f) \<in> rule_table"
proof (cases "sg_group_ids (ec2_security_groups i)")
  case (Inl e)
  with assms show ?thesis by (simp add: ec2_public_risk_def Let_def)
next
  case (Inr gids)
  with assms have "severity f = (if has_risky_sg_loop False (ec2_security_groups i) then Critical else High)"
    and "risk_score f = (if has_risky_sg_loop False (ec2_security_groups i) then 90 else 70)"
    unfolding ec2_public_risk_def Let_def by fastforce+
  then show ?thesis by (simp add: rule_table_def)
qed

lemma ec2_public_risks_table:
  "ec2_public_risks is = Inr fs \<Longrightarrow> f \<in> set fs \<Longrightarrow> (severity f, risk_score f) \<in> rule_table"
proof (induction "is" arbitrary: fs)
  case Nil
  then show ?case by simp
next
  case (Cons i rest)
  then show ?case
    by (auto split: if_splits sum.splits dest: ec2_public_risk_table)
qed

lemma s3_rds_table:
  "(severity (s3_public_risk b), risk_score (s3_public_risk b)) \<in> rule_table"
  "(severity (s3_unencrypted_risk b), risk_score (s3_unencrypted_risk b)) \<in> rule_table"
  "(severity (rds_public_risk i), risk_score (rds_public_risk i)) \<in> rule_table"
  "(severity (rds_unencrypted_risk i), risk_score (rds_unencrypted_risk i)) \<in> rule_table"
  by (simp_all add: rule_table_def s3_public_risk_def
      s3_unencrypted_risk_def rds_public_risk_def rds_unencrypted_risk_def)

lemma resource_risks_table:
  assumes "analyze_resource_risks rd = Inr fs" and "f \<in> set fs"
  shows "(severity f, risk_score f) \<in> rule_table"
proof -
  from assms(1) obtain ec2 where e: "ec2_public_risks (ec2_instances rd) = Inr ec2"
    and fs: "fs = ec2
          @ map s3_public_risk (filter bucket_is_public (s3_buckets rd))
          @ map s3_unencrypted_risk (filter (\<lambda>b. \<not> encryption_enabled b) (s3_buckets rd))
          @ map rds_public_risk (filter publicly_accessible (rds_instances rd))
          @ map rds_unencrypted_risk (filter (\<lambda>i. \<not> encrypted i) (rds_instances rd))"
    by (auto simp: analyze_resource_risks_def split: sum.splits)
  from assms(2) fs consider "f \<in> set ec2" | b where "f = s3_public_risk b"
    | b where "f = s3_unencrypted_risk b" | i where "f = rds_public_risk i"
    | i where "f = rds_unencrypted_risk i"
    by auto
  then show ?thesis
    using e by cases (auto simp: s3_rds_table dest: ec2_public_risks_table)
qed

lemma sg_internet_risk_table:
  "(severity (sg_internet_risk sg), risk_score (sg_internet_risk sg)) \<in> rule_table"
  by (simp add: rule_table_def sg_internet_risk_def Let_def)

lemma network_risks_table:
  assumes "f \<in> set (analyze_network_risks rd)"
  shows "(severity f, risk_score f) \<in> rule_table"
proof -
  from assms obtain sg where "f = sg_internet_risk sg"
    unfolding analyze_network_risks_def set_map by blast
  then show ?thesis by (simp add: sg_internet_risk_table)
qed

lemma analyze_all_Inr:
  assumes "analyze_all cfg now rs iam rd = Inr (out, rs')"
  obtains res where "analyze_resource_risks rd = Inr res"
    and "identity_risks out = analyze_identity_risks iam"
    and "resource_risks out = res"
    and "network_risks out = analyze_network_risks rd"
    and "compliance_risks out = []"
    and "rs' = foldl (categorize cfg) rs
           (sort_by_score (analyze_identity_risks iam @ res @ analyze_network_risks rd @ []))"
    and "top_risks out = take 10
           (sort_by_score (analyze_identity_risks iam @ res @ analyze_network_risks rd @ []))"
    and "total_risks (summary out) = length
           (sort_by_score (analyze_identity_risks iam @ res @ analyze_network_risks rd @ []))"
    and "critical_count (summary out) = length (critical rs')"
    and "high_count (summary out) = length (high rs')"
    and "medium_count (summary out) = length (medium rs')"
    and "low_count (summary out) = length (low rs')"
    and "timestamp out = now"
proof (cases "analyze_resource_risks rd")
  case (Inl e)
  with assms show ?thesis by (simp add: analyze_all_def)
next
  case (Inr res)
  with assms that[of res] show ?thesis
    by (simp add: analyze_all_def Let_def analyze_compliance_risks_def) force
qed

lemma analyze_all_findings_table:
  assumes "analyze_all cfg now rs iam rd = Inr (out, rs')" and "f \<in> set (all_findings out)"
  shows "(severity f, risk_score f) \<in> rule_table"
proof -
  from assms(1) obtain res where r: "analyze_resource_risks rd = Inr res"
    and o: "identity_risks out = analyze_identity_risks iam" "resource_risks out = res"
      "network_risks out = analyze_network_risks rd" "compliance_risks out = []"
    by (rule analyze_all_Inr)
  from assms(2) o consider "f \<in> set (analyze_identity_risks iam)" | "f \<in> set res"
    | "f \<in> set (analyze_network_risks rd)"
    by (auto simp: all_findings_def)
  then show ?thesis
    by cases (auto dest: identity_risks_table resource_risks_table[OF r] network_risks_table)
qed

lemma foldl_categorize:
  "foldl (categorize cfg) rs xs =
     \<lparr>critical = critical rs @ filter (\<lambda>f. bucket_of cfg (risk_score f) = Critical) xs,
      high = high rs @ filter (\<lambda>f. bucket_of cfg (risk_score f) = High) xs,
      medium = medium rs @ filter (\<lambda>f. bucket_of cfg (risk_score f) = Medium) xs,
      low = low rs @ filter (\<lambda>f. bucket_of cfg (risk_score f) = Low) xs\<rparr>"
proof (induction xs arbitrary: rs)
  case Nil
  then show ?case by simp
next
  case (Cons x xs)
  have "foldl (categorize cfg) rs (x # xs) = foldl (categorize cfg) (categorize cfg rs x) xs"
    by simp
  also have "\<dots> =
     \<lparr>critical = critical (categorize cfg rs x) @ filter (\<lambda>f. bucket_of cfg (risk_score f) = Critical) xs,
      high = high (categorize cfg rs x) @ filter (\<lambda>f. bucket_of cfg (risk_score f) = High) xs,
      medium = medium (categorize cfg rs x) @ filter (\<lambda>f. bucket_of cfg (risk_score f) = Medium) xs,
      low = low (categorize cfg rs x) @ filter (\<lambda>f. bucket_of cfg (risk_score f) = Low) xs\<rparr>"
    by (rule Cons.IH)
  also have "\<dots> =
     \<lparr>critical = critical rs @ filter (\<lambda>f. bucket_of cfg (risk_score f) = Critical) (x # xs),
      high = high rs @ filter (\<lambda>f. bucket_of cfg (risk_score f) = High) (x # xs),
      medium = medium rs @ filter (\<lambda>f. bucket_of cfg (risk_score f) = Medium) (x # xs),
      low = low rs @ filter (\<lambda>f. bucket_of cfg (risk_score f) = Low) (x # xs)\<rparr>"
    by (cases "bucket_of cfg (risk_score x)") (simp_all add: categorize_def)
  finally show ?case .
qed

lemma mset_four_buckets:
  "mset (filter (\<lambda>f. b f = Critical) xs) + mset (filter (\<lambda>f. b f = High) xs)
   + mset (filter (\<lambda>f. b f = Medium) xs) + mset (filter (\<lambda>f. b f = Low) xs) = mset xs"
proof (induction xs)
  case Nil
  then show ?case by simp
next
  case (Cons x xs)
  then show ?case by (cases "b x") (simp_all add: ac_simps)
qed








text \<open>\<open>analyze_all\<close> fails only where \<open>analyze_resource_risks\<close> does.\<close>

lemma analyze_all_total:
  "analyze_resource_risks rd = Inr res \<Longrightarrow>
   \<exists>out rs'. analyze_all cfg now rs iam rd = Inr (out, rs') \<and> resource_risks out = res
      \<and> identity_risks out = analyze_identity_risks iam"
  by (simp add: analyze_all_def Let_def)


text \<open>
  C4: when no role and no user has the ARN, \<open>calculate_blast_radius\<close> returns the empty
  structure (no affected resources, no permissions, score 0); it is a total function, so
  nothing is raised. When a role has the ARN, the result is computed from the first such
  role, whatever the users are: the role loop runs first and the user loop only when it
  found nothing.
\<close>

theorem blast_radius_unknown_arn_and_role_first:
  "((\<forall>r \<in> set (roles iam). arn r \<noteq> a) \<and> (\<forall>u \<in> set (users iam). user_arn u \<noteq> Some a)
      \<longrightarrow> calculate_blast_radius a iam rd =
            \<lparr>identity_arn = a, affected_resources = [], permissions = [], blast_risk_score = 0\<rparr>)
   \<and> (find (\<lambda>r. arn r = a) (roles iam) = Some r
      \<longrightarrow> calculate_blast_radius a iam rd =
            \<lparr>identity_arn = a,
             affected_resources = role_affected_resources (role_name r) rd,
             permissions = attached_policies r,
             blast_risk_score =
               blast_score (role_affected_resources (role_name r) rd) (attached_policies r)\<rparr>)"
proof (intro conjI impI)
  assume "(\<forall>r \<in> set (roles iam). arn r \<noteq> a) \<and> (\<forall>u \<in> set (users iam). user_arn u \<noteq> Some a)"
  then have "find (\<lambda>r. arn r = a) (roles iam) = None"
    and "find (\<lambda>u. user_arn u = Some a) (users iam) = None"
    by (simp_all add: find_None_iff)
  then show "calculate_blast_radius a iam rd =
            \<lparr>identity_arn = a, affected_resources = [], permissions = [], blast_risk_score = 0\<rparr>"
    by (simp add: calculate_blast_radius_def find_identity_def)
next
  assume "find (\<lambda>r. arn r = a) (roles iam) = Some r"
  then show "calculate_blast_radius a iam rd =
            \<lparr>identity_arn = a,
             affected_resources = role_affected_resources (role_name r) rd,
             permissions = attached_policies r,
             blast_risk_score =
               blast_score (role_affected_resources (role_name r) rd) (attached_policies r)\<rparr>"
    by (simp add: calculate_blast_radius_def find_identity_def Let_def)
qed

text \<open>
  The user \<open>bob\<close> carries the same ARN string as the role \<open>ops\<close>: the permissions returned
  are those of the role.
\<close>

theorem blast_radius_unknown_arn_and_role_first_witness:
  "calculate_blast_radius ''arn:aws:iam::1:user/nobody'' ex_iam ex_rd =
     \<lparr>identity_arn = ''arn:aws:iam::1:user/nobody'', affected_resources = [], permissions = [],
      blast_risk_score = 0\<rparr>
   \<and> user_arn ex_user = Some (arn ex_role)
   \<and> permissions (calculate_blast_radius (arn ex_role) ex_iam ex_rd) = attached_policies ex_role
   \<and> permissions (calculate_blast_radius (arn ex_role) ex_iam ex_rd) \<noteq> user_attached_policies ex_user
   \<and> affected_resources (calculate_blast_radius (arn ex_role) ex_iam ex_rd) = [ec2_affected ex_instance]"
proof -
  have none: "(\<forall>r \<in> set (roles ex_iam). arn r \<noteq> ''arn:aws:iam::1:user/nobody'')
      \<and> (\<forall>u \<in> set (users ex_iam). user_arn u \<noteq> Some ''arn:aws:iam::1:user/nobody'')"
    by (simp add: ex_iam_def ex_role_def ex_user_def)
  have first: "find (\<lambda>r. arn r = arn ex_role) (roles ex_iam) = Some ex_role"
    by (simp add: ex_iam_def)
  have aff: "role_affected_resources (role_name ex_role) ex_rd = [ec2_affected ex_instance]"
    by (simp add: role_affected_resources_def ex_rd_def ex_instance_def ex_role_def)
  have neq: "attached_policies ex_role \<noteq> user_attached_policies ex_user"
    by (simp add: ex_role_def ex_user_def)
  have u: "user_arn ex_user = Some (arn ex_role)"
    by (simp add: ex_role_def ex_user_def)
  from blast_radius_unknown_arn_and_role_first
         [of ex_iam "''arn:aws:iam::1:user/nobody''" ex_rd ex_role] none
  have 1: "calculate_blast_radius ''arn:aws:iam::1:user/nobody'' ex_iam ex_rd =
     \<lparr>identity_arn = ''arn:aws:iam::1:user/nobody'', affected_resources = [], permissions = [],
      blast_risk_score = 0\<rparr>"
    by blast
  from blast_radius_unknown_arn_and_role_first [of ex_iam "arn ex_role" ex_rd ex_role] first
  have 2: "calculate_blast_radius (arn ex_role) ex_iam ex_rd =
            \<lparr>identity_arn = arn ex_role,
             affected_resources = role_affected_resources (role_name ex_role) ex_rd,
             permissions = attached_policies ex_role,
             blast_risk_score =
               blast_score (role_affected_resources (role_name ex_role) ex_rd) (attached_policies ex_role)\<rparr>"
    by blast
  show ?thesis
    using 1 u neq by (simp add: 2 aff)
qed

text \<open>
  C1: a public instance whose only security group admits no traffic from the Internet
  (\<open>has_internet_access\<close> false, no risky rules) still gets score 90 and severity critical:
  the flag \<open>has_risky_sg\<close> is set by every iteration of the loop over the attached groups.
\<close>

theorem public_instance_restricted_group_scored_critical:
  "has_internet_access ex_sg = False \<and> risky_rules ex_sg = []
   \<and> security_groups ex_rd = [ex_sg]
   \<and> ec2_security_groups ex_instance = [SgRec (group_id ex_sg) (group_name ex_sg)]
   \<and> analyze_resource_risks ex_rd = Inr
      [\<lparr>risk_id = ''EC2-PUBLIC-i-1'', risk_type = Resource, severity = Critical, risk_score = 90,
        title = ''Public EC2 instance: web'', resource_type = ''ec2_instance'', resource_id = ''i-1'',
        resource_name = Some ''web'', finding_security_groups = Some [''sg-1''],
        remediation = ''Review security groups and remove public access if not required'',
        compliance_frameworks = [''CIS-5.1'']\<rparr>]"
  by (simp add: analyze_resource_risks_def ex_rd_def ex_instance_def ec2_public_risk_def ex_sg_def)

lemma bucket_of_Critical_iff:
  "bucket_of cfg s = Critical \<longleftrightarrow> risk_critical_threshold cfg \<le> s"
  by (simp add: bucket_of_def)

lemma rule_table_critical_iff:
  "(sev, n) \<in> rule_table \<Longrightarrow> 85 < t \<Longrightarrow> t \<le> 90 \<Longrightarrow> sev = Critical \<longleftrightarrow> t \<le> n"
  by (auto simp: rule_table_def)

lemma analyze_all_fresh_buckets:
  assumes "analyze_all cfg now RiskAnalyzer_init iam rd = Inr (out, rs')"
  shows "critical rs' = filter (\<lambda>f. bucket_of cfg (risk_score f) = Critical) (sort_by_score (all_findings out))"
    and "high rs' = filter (\<lambda>f. bucket_of cfg (risk_score f) = High) (sort_by_score (all_findings out))"
    and "medium rs' = filter (\<lambda>f. bucket_of cfg (risk_score f) = Medium) (sort_by_score (all_findings out))"
    and "low rs' = filter (\<lambda>f. bucket_of cfg (risk_score f) = Low) (sort_by_score (all_findings out))"
    and "total_risks (summary out) = length (sort_by_score (all_findings out))"
    and "critical_count (summary out) = length (critical rs')"
    and "high_count (summary out) = length (high rs')"
    and "medium_count (summary out) = length (medium rs')"
    and "low_count (summary out) = length (low rs')"
proof -
  from assms obtain res where o: "identity_risks out = analyze_identity_risks iam"
      "resource_risks out = res" "network_risks out = analyze_network_risks rd"
      "compliance_risks out = []"
    and rs': "rs' = foldl (categorize cfg) RiskAnalyzer_init
           (sort_by_score (analyze_identity_risks iam @ res @ analyze_network_risks rd @ []))"
    and t: "total_risks (summary out) = length
           (sort_by_score (analyze_identity_risks iam @ res @ analyze_network_risks rd @ []))"
    and c: "critical_count (summary out) = length (critical rs')"
      "high_count (summary out) = length (high rs')"
      "medium_count (summary out) = length (medium rs')"
      "low_count (summary out) = length (low rs')"
    by (rule analyze_all_Inr)
  have all: "all_findings out = analyze_identity_risks iam @ res @ analyze_network_risks rd @ []"
    by (simp add: all_findings_def o)
  show "critical rs' = filter (\<lambda>f. bucket_of cfg (risk_score f) = Critical) (sort_by_score (all_findings out))"
    and "high rs' = filter (\<lambda>f. bucket_of cfg (risk_score f) = High) (sort_by_score (all_findings out))"
    and "medium rs' = filter (\<lambda>f. bucket_of cfg (risk_score f) = Medium) (sort_by_score (all_findings out))"
    and "low rs' = filter (\<lambda>f. bucket_of cfg (risk_score f) = Low) (sort_by_score (all_findings out))"
    unfolding rs' all foldl_categorize by (simp_all add: RiskAnalyzer_init_def)
  show "total_risks (summary out) = length (sort_by_score (all_findings out))"
    unfolding all by (rule t)
  show "critical_count (summary out) = length (critical rs')"
      "high_count (summary out) = length (high rs')"
      "medium_count (summary out) = length (medium rs')"
      "low_count (summary out) = length (low rs')"
    by (rule c)+
qed

lemma set_sort_by_score [simp]: "set (sort_by_score fs) = set fs"
  by (simp add: sort_by_score_def)

lemma mset_sort_by_score [simp]: "mset (sort_by_score fs) = mset fs"
  by (simp add: sort_by_score_def)

lemma length_sort_by_score [simp]: "length (sort_by_score fs) = length fs"
  by (simp add: sort_by_score_def)

text \<open>
  C2, as amended: on a fresh analyzer, a finding is put in the critical list exactly when
  its score is at least the configured critical threshold; the list a finding is put in
  depends on its score alone; the four lists together hold every finding once (no overlap,
  no omission), and the four counts add up to the total. The severity stored on a finding
  is a constant of its rule: it is critical exactly when the score is at least the
  configured threshold provided that threshold lies above 85 and is at most 90, as the
  default 90 does.
\<close>

theorem severity_buckets_partition:
  assumes "analyze_all cfg now RiskAnalyzer_init iam rd = Inr (out, rs')"
  shows "(85 < risk_critical_threshold cfg \<and> risk_critical_threshold cfg \<le> 90 \<longrightarrow>
           (\<forall>f \<in> set (all_findings out).
              severity f = Critical \<longleftrightarrow> risk_critical_threshold cfg \<le> risk_score f))
       \<and> (\<forall>f \<in> set (all_findings out).
             (f \<in> set (critical rs') \<longleftrightarrow> risk_critical_threshold cfg \<le> risk_score f)
           \<and> (f \<in> set (critical rs') \<longleftrightarrow> bucket_of cfg (risk_score f) = Critical)
           \<and> (f \<in> set (high rs') \<longleftrightarrow> bucket_of cfg (risk_score f) = High)
           \<and> (f \<in> set (medium rs') \<longleftrightarrow> bucket_of cfg (risk_score f) = Medium)
           \<and> (f \<in> set (low rs') \<longleftrightarrow> bucket_of cfg (risk_score f) = Low))
       \<and> mset (critical rs') + mset (high rs') + mset (medium rs') + mset (low rs')
           = mset (all_findings out)
       \<and> critical_count (summary out) + high_count (summary out) + medium_count (summary out)
           + low_count (summary out) = total_risks (summary out)"
proof -
  note b = analyze_all_fresh_buckets [OF assms]
  have 1: "85 < risk_critical_threshold cfg \<and> risk_critical_threshold cfg \<le> 90 \<longrightarrow>
           (\<forall>f \<in> set (all_findings out).
              severity f = Critical \<longleftrightarrow> risk_critical_threshold cfg \<le> risk_score f)"
    using analyze_all_findings_table [OF assms] rule_table_critical_iff by blast
  have 2: "\<forall>f \<in> set (all_findings out).
             (f \<in> set (critical rs') \<longleftrightarrow> risk_critical_threshold cfg \<le> risk_score f)
           \<and> (f \<in> set (critical rs') \<longleftrightarrow> bucket_of cfg (risk_score f) = Critical)
           \<and> (f \<in> set (high rs') \<longleftrightarrow> bucket_of cfg (risk_score f) = High)
           \<and> (f \<in> set (medium rs') \<longleftrightarrow> bucket_of cfg (risk_score f) = Medium)
           \<and> (f \<in> set (low rs') \<longleftrightarrow> bucket_of cfg (risk_score f) = Low)"
    by (simp add: b(1-4) bucket_of_Critical_iff)
  have 3: "mset (critical rs') + mset (high rs') + mset (medium rs') + mset (low rs')
           = mset (all_findings out)"
    unfolding b(1-4) mset_four_buckets by simp
  have "size (mset (critical rs') + mset (high rs') + mset (medium rs') + mset (low rs'))
           = size (mset (all_findings out))"
    by (simp only: 3)
  then have 4: "critical_count (summary out) + high_count (summary out) + medium_count (summary out)
           + low_count (summary out) = total_risks (summary out)"
    by (simp add: b(5-9))
  from 1 2 3 4 show ?thesis by blast
qed

text \<open>
  With the critical threshold configured as 80, the admin-role finding has score 80, so
  it reaches the threshold, and its stored severity is high.
\<close>

theorem severity_iff_threshold_counterexample:
  "identity_risks (fst (projr (analyze_all ex_cfg80 ''2026-01-01T00:00:00'' RiskAnalyzer_init ex_iam ex_rd)))
      = [role_admin_risk ex_role]
   \<and> risk_critical_threshold ex_cfg80 \<le> risk_score (role_admin_risk ex_role)
   \<and> severity (role_admin_risk ex_role) \<noteq> Critical
   \<and> \<not> (severity (role_admin_risk ex_role) = Critical
          \<longleftrightarrow> risk_critical_threshold ex_cfg80 \<le> risk_score (role_admin_risk ex_role))"
proof -
  have "analyze_resource_risks ex_rd \<noteq> Inl TypeError"
    by (simp add: analyze_resource_risks_def ex_rd_def ex_instance_def ec2_public_risk_def)
  then obtain res where "analyze_resource_risks ex_rd = Inr res"
    by (cases "analyze_resource_risks ex_rd") (auto, metis py_error.exhaust)
  then obtain out rs' where
    "analyze_all ex_cfg80 ''2026-01-01T00:00:00'' RiskAnalyzer_init ex_iam ex_rd = Inr (out, rs')"
    and "identity_risks out = analyze_identity_risks ex_iam"
    using analyze_all_total by blast
  moreover have "analyze_identity_risks ex_iam = [role_admin_risk ex_role]"
    by (simp add: analyze_identity_risks_def ex_iam_def ex_role_def ex_user_def active_keys_def)
  ultimately show ?thesis
    by (simp add: role_admin_risk_def ex_cfg80_def)
qed

lemma ex_analyze_resource1: "analyze_resource_risks ex_rd = Inr
      [\<lparr>risk_id = ''EC2-PUBLIC-i-1'', risk_type = Resource, severity = Critical, risk_score = 90,
        title = ''Public EC2 instance: web'', resource_type = ''ec2_instance'', resource_id = ''i-1'',
        resource_name = Some ''web'', finding_security_groups = Some [''sg-1''],
        remediation = ''Review security groups and remove public access if not required'',
        compliance_frameworks = [''CIS-5.1'']\<rparr>]"
  by (simp add: analyze_resource_risks_def ex_rd_def ex_instance_def ec2_public_risk_def)

text \<open>The default settings on the small account: two findings, one of them critical.\<close>

theorem severity_buckets_partition_witness:
  "\<exists>out rs'. analyze_all default_settings ''2026-01-01T00:00:00'' RiskAnalyzer_init ex_iam ex_rd
        = Inr (out, rs')
     \<and> length (all_findings out) = 2
     \<and> (\<forall>f \<in> set (all_findings out). severity f = Critical \<longleftrightarrow> 90 \<le> risk_score f)
     \<and> (\<forall>f \<in> set (all_findings out). f \<in> set (critical rs') \<longleftrightarrow> 90 \<le> risk_score f)
     \<and> mset (critical rs') + mset (high rs') + mset (medium rs') + mset (low rs')
           = mset (all_findings out)
     \<and> critical_count (summary out) + high_count (summary out) + medium_count (summary out)
           + low_count (summary out) = 2"
proof -
  obtain out rs' where
    a: "analyze_all default_settings ''2026-01-01T00:00:00'' RiskAnalyzer_init ex_iam ex_rd = Inr (out, rs')"
    and r: "length (resource_risks out) = 1"
    and i: "identity_risks out = analyze_identity_risks ex_iam"
    using analyze_all_total [OF ex_analyze_resource1] by fastforce
  from a have n: "network_risks out = analyze_network_risks ex_rd" "compliance_risks out = []"
    by (auto elim: analyze_all_Inr)
  have len: "length (all_findings out) = 2"
    using r by (simp add: all_findings_def i n analyze_identity_risks_def ex_iam_def ex_role_def
        ex_user_def analyze_network_risks_def ex_rd_def ex_sg_def active_keys_def)
  from a have t: "total_risks (summary out) = length (all_findings out)"
    by (simp add: analyze_all_fresh_buckets(5))
  have th: "85 < risk_critical_threshold default_settings \<and> risk_critical_threshold default_settings \<le> 90"
    by (simp add: default_settings_def)
  have c: "risk_critical_threshold default_settings = 90"
    by (simp add: default_settings_def)
  from severity_buckets_partition [OF a] th len t show ?thesis
    unfolding c using a by (intro exI [of _ out] exI [of _ rs']) simp
qed

section \<open>Properties of the relationship builder\<close>

lemma add_node_ids:
  "snd st = node_id ` set (fst st) \<Longrightarrow> snd (add_node st n) = node_id ` set (fst (add_node st n))"
  by (simp add: add_node_def)

lemma foldl_add_node_ids:
  "snd st = node_id ` set (fst st) \<Longrightarrow>
   snd (foldl add_node st ns) = node_id ` set (fst (foldl add_node st ns))"
proof (induction ns arbitrary: st)
  case Nil
  then show ?case by simp
next
  case (Cons n ns)
  from Cons.prems have "snd (add_node st n) = node_id ` set (fst (add_node st n))"
    by (rule add_node_ids)
  then show ?case using Cons.IH by simp
qed

lemma node_id_internet: "node_id internet_node = ''internet''"
  by (simp add: internet_node_def plain_node_def)

lemma graph_nodes_ids:
  "snd (graph_nodes rm sm rd) = node_id ` set (fst (graph_nodes rm sm rd))"
proof -
  have e: "snd ([] :: graph_node list, {} :: string set) = node_id ` set (fst ([] :: graph_node list, {} :: string set))"
    by simp
  show ?thesis
    unfolding graph_nodes_def Let_def
    by (simp add: node_id_internet
        foldl_add_node_ids [OF foldl_add_node_ids [OF foldl_add_node_ids [OF
          foldl_add_node_ids [OF foldl_add_node_ids [OF foldl_add_node_ids [OF e]]]]]])
qed

lemma internet_in_graph_nodes: "''internet'' \<in> snd (graph_nodes rm sm rd)"
  by (simp add: graph_nodes_def Let_def)

lemma nodes_build_graph_data: "nodes (build_graph_data rels rm sm rd) = fst (graph_nodes rm sm rd)"
  by (simp add: build_graph_data_def Let_def)

lemma edges_build_graph_data:
  "edges (build_graph_data rels rm sm rd) =
     relationship_edges (node_id ` set (nodes (build_graph_data rels rm sm rd))) rels
     @ internet_edges (node_id ` set (nodes (build_graph_data rels rm sm rd))) sm"
  by (simp add: build_graph_data_def Let_def graph_nodes_ids)

lemma relationship_edges_in:
  "e \<in> set (relationship_edges ids rels) \<Longrightarrow> edge_source e \<in> ids \<and> edge_target e \<in> ids"
  by (auto simp: relationship_edges_def)

lemma internet_edges_in:
  "e \<in> set (internet_edges ids sm) \<Longrightarrow> edge_source e \<in> ids \<and> edge_target e = ''internet''"
  by (auto simp: internet_edges_def)

lemma build_graph_data_integrity:
  assumes "e \<in> set (edges (build_graph_data rels rm sm rd))"
  shows "edge_source e \<in> node_id ` set (nodes (build_graph_data rels rm sm rd))
       \<and> edge_target e \<in> node_id ` set (nodes (build_graph_data rels rm sm rd))"
proof -
  let ?ids = "node_id ` set (nodes (build_graph_data rels rm sm rd))"
  have i: "''internet'' \<in> ?ids"
    using internet_in_graph_nodes [of rm sm rd]
    by (simp add: nodes_build_graph_data graph_nodes_ids)
  from assms have "e \<in> set (relationship_edges ?ids rels) \<or> e \<in> set (internet_edges ?ids sm)"
    by (subst (asm) edges_build_graph_data) simp
  then show ?thesis
    using i relationship_edges_in internet_edges_in by metis
qed

lemma build_relationships_graph:
  assumes "build_role_resource_map so rels iam rd = Inr (rm, rels1)"
    and "build_security_group_map rels1 rd = Inr (sm, rels2)"
  shows "\<exists>out. build_relationships so rels iam rd = Inr (out, rels2)
      \<and> role_mappings out = rm \<and> security_group_mappings out = sm
      \<and> consolidated_view out = build_consolidated_view rm sm
      \<and> graph out = build_graph_data rels2 rm sm rd
      \<and> total_relationships (build_summary out) = length rels2"
  using assms by (simp add: build_relationships_def)

text \<open>
  C6: once the two index-building steps have returned, \<open>build_relationships\<close> returns:
  assembling the graph cannot fail. Every edge of the emitted graph has its source id and
  its target id among the ids of the emitted nodes, and a relationship one of whose
  normalized endpoint ids is not a node id contributes no edge.
\<close>

theorem graph_edges_reference_nodes:
  assumes "build_role_resource_map set_order rels iam rd = Inr (rm, rels1)"
    and "build_security_group_map rels1 rd = Inr (sm, rels2)"
  shows "\<exists>out. build_relationships set_order rels iam rd = Inr (out, rels2)
     \<and> (\<forall>e \<in> set (edges (graph out)).
           edge_source e \<in> node_id ` set (nodes (graph out))
         \<and> edge_target e \<in> node_id ` set (nodes (graph out)))
     \<and> (\<forall>rel \<in> set rels2.
           edge_source (rel_edge rel) \<notin> node_id ` set (nodes (graph out))
         \<or> edge_target (rel_edge rel) \<notin> node_id ` set (nodes (graph out))
         \<longrightarrow> rel_edge rel \<notin> set (edges (graph out)))"
proof -
  from build_relationships_graph [OF assms] obtain out where
    b: "build_relationships set_order rels iam rd = Inr (out, rels2)"
    and g: "graph out = build_graph_data rels2 rm sm rd"
    by blast
  have 1: "\<forall>e \<in> set (edges (graph out)).
           edge_source e \<in> node_id ` set (nodes (graph out))
         \<and> edge_target e \<in> node_id ` set (nodes (graph out))"
    unfolding g using build_graph_data_integrity by blast
  from 1 have 2: "\<forall>rel \<in> set rels2.
           edge_source (rel_edge rel) \<notin> node_id ` set (nodes (graph out))
         \<or> edge_target (rel_edge rel) \<notin> node_id ` set (nodes (graph out))
         \<longrightarrow> rel_edge rel \<notin> set (edges (graph out))"
    by blast
  from b 1 2 show ?thesis by blast
qed

lemma Inr_projr: "\<not> isl x \<Longrightarrow> x = Inr (fst (projr x), snd (projr x))"
  by (cases x) auto

lemma ex_role_map_ok: "\<not> isl (build_role_resource_map (\<lambda>xs. xs) [ex_stale] ex_iam ex_rd_ids)"
  by code_simp

lemma ex_sg_map_ok:
  "\<not> isl (build_security_group_map
            (snd (projr (build_role_resource_map (\<lambda>xs. xs) [ex_stale] ex_iam ex_rd_ids))) ex_rd_ids)"
  by code_simp

lemma ex_graph_edges:
  "map edge_type (edges (graph (fst (projr
      (build_relationships (\<lambda>xs. xs) [ex_stale] ex_iam ex_rd_ids))))) =
     [''assumes'', ''assumes'', ''protected_by'', ''protected_by'', ''protected_by'',
      ''allows_traffic_from'']"
  by code_simp

lemma ex_stale_kept:
  "ex_stale \<in> set (snd (projr (build_relationships (\<lambda>xs. xs) [ex_stale] ex_iam ex_rd_ids)))"
  by code_simp

lemma ex_stale_source_absent:
  "edge_source (rel_edge ex_stale) \<notin> node_id ` set (nodes (graph (fst (projr
      (build_relationships (\<lambda>xs. xs) [ex_stale] ex_iam ex_rd_ids)))))"
  by code_simp

text \<open>
  A builder that still holds a relationship of an earlier call: six edges are emitted,
  all between emitted nodes, and the old relationship, whose role is no node, is dropped.
\<close>

theorem graph_edges_reference_nodes_witness:
  "\<exists>out rels2. build_relationships (\<lambda>xs. xs) [ex_stale] ex_iam ex_rd_ids = Inr (out, rels2)
     \<and> length (edges (graph out)) = 6
     \<and> (\<forall>e \<in> set (edges (graph out)).
           edge_source e \<in> node_id ` set (nodes (graph out))
         \<and> edge_target e \<in> node_id ` set (nodes (graph out)))
     \<and> ex_stale \<in> set rels2
     \<and> rel_edge ex_stale \<notin> set (edges (graph out))"
proof -
  from graph_edges_reference_nodes [OF Inr_projr [OF ex_role_map_ok] Inr_projr [OF ex_sg_map_ok]]
  obtain out rels2 where
    b: "build_relationships (\<lambda>xs. xs) [ex_stale] ex_iam ex_rd_ids = Inr (out, rels2)"
    and i: "\<forall>e \<in> set (edges (graph out)).
           edge_source e \<in> node_id ` set (nodes (graph out))
         \<and> edge_target e \<in> node_id ` set (nodes (graph out))"
    and d: "\<forall>rel \<in> set rels2.
           edge_source (rel_edge rel) \<notin> node_id ` set (nodes (graph out))
         \<or> edge_target (rel_edge rel) \<notin> node_id ` set (nodes (graph out))
         \<longrightarrow> rel_edge rel \<notin> set (edges (graph out))"
    by blast
  from b have o: "out = fst (projr (build_relationships (\<lambda>xs. xs) [ex_stale] ex_iam ex_rd_ids))"
    and r: "rels2 = snd (projr (build_relationships (\<lambda>xs. xs) [ex_stale] ex_iam ex_rd_ids))"
    by simp_all
  have len: "length (edges (graph out)) = 6"
    using arg_cong [OF ex_graph_edges, of length] by (simp add: o)
  have m: "ex_stale \<in> set rels2"
    using ex_stale_kept by (simp add: r)
  have a: "edge_source (rel_edge ex_stale) \<notin> node_id ` set (nodes (graph out))"
    using ex_stale_source_absent by (simp add: o)
  from d m a have "rel_edge ex_stale \<notin> set (edges (graph out))" by blast
  with b len i m show ?thesis by blast
qed

text \<open>
  C7: the reference to the unlisted group \<open>sg-999\<close> given as an id string yields the
  synthesized entry with the instance attached; the same reference in the form in which
  \<^verbatim>\<open>resource_discoverer._get_ec2_details\<close> emits it, a dictionary, makes
  \<^verbatim>\<open>_build_security_group_map\<close>, and with it \<^verbatim>\<open>build_relationships\<close>, raise \<^verbatim>\<open>TypeError\<close>.
\<close>

theorem orphan_reference_as_discovered_raises:
  "map_of (fst (projr (build_security_group_map [] ex_rd_ids))) ''sg-999'' =
     Some \<lparr>sm_group_id = ''sg-999'', sm_group_name = ''sg-999'', sm_vpc_id = None,
           sm_has_internet_access = False, sm_allows_all_traffic = False,
           sm_resources = [ec2_sg_resource ex_instance_ids]\<rparr>
   \<and> ec2_security_groups ex_orphan_instance = [SgRec ''sg-999'' ''orphan'']
   \<and> build_security_group_map [] ex_rd_orphan = Inl TypeError
   \<and> build_relationships (\<lambda>xs. xs) RelationshipBuilder_init ex_iam ex_rd_orphan = Inl TypeError"
  by code_simp

lemma foldl_count:
  "foldl (\<lambda>s x. if P x then s + c else s) (s0 :: int) xs = s0 + c * int (length (filter P xs))"
  by (induction xs arbitrary: s0) (simp_all add: algebra_simps)

lemma calculate_role_risk_formula:
  "calculate_role_risk en sm =
     min 100 ((if rm_is_admin en then 50 else 0)
              + 20 * int (length (filter (\<lambda>r. ri_is_public r = Some True) (rm_resources en)))
              + 15 * int (length (filter (sg_internet_accessible sm) (rm_security_groups en))))"
  by (simp add: calculate_role_risk_def Let_def foldl_count)

lemma calculate_role_risk_bounds:
  "0 \<le> calculate_role_risk en sm \<and> calculate_role_risk en sm \<le> 100"
  by (simp add: calculate_role_risk_formula)

lemma length_filter_card:
  "distinct xs \<Longrightarrow> length (filter P xs) = card {x \<in> set xs. P x}"
proof -
  assume "distinct xs"
  then have "distinct (filter P xs)" by simp
  then have "card (set (filter P xs)) = length (filter P xs)" by (rule distinct_card)
  then show ?thesis by simp
qed

lemma in_set_update:
  "(k, v') \<in> set (AList.update k0 v al) \<Longrightarrow> (k, v') \<in> set al \<or> (k = k0 \<and> v' = v)"
  by (induction al) (auto split: if_splits)

lemma in_set_map_entry:
  "(k, v') \<in> set (AList.map_entry p f al) \<Longrightarrow>
     (k, v') \<in> set al \<or> (k = p \<and> (\<exists>e0. map_of al p = Some e0 \<and> v' = f e0))"
  by (induction al) (auto split: if_splits)

lemma init_role_map_inv:
  "\<forall>kv \<in> set m. role_inv (snd kv) \<Longrightarrow>
   \<forall>kv \<in> set (foldl (\<lambda>m r. AList.update (role_name r) (init_role_entry r) m) m rs).
      role_inv (snd kv)"
proof (induction rs arbitrary: m)
  case Nil
  then show ?case by simp
next
  case (Cons r rs)
  have "role_inv (init_role_entry r)"
    by (simp add: role_inv_def init_role_entry_def owned_security_groups_def)
  with Cons.prems have "\<forall>kv \<in> set (AList.update (role_name r) (init_role_entry r) m). role_inv (snd kv)"
    by (auto dest!: in_set_update)
  then show ?case using Cons.IH by simp
qed

lemma set_add_props: "distinct s \<Longrightarrow> distinct (set_add g s) \<and> set (set_add g s) = insert g (set s)"
  by (auto simp: set_add_def)

lemma set_update_props:
  "set_update s refs = Inr s' \<Longrightarrow> distinct s \<Longrightarrow>
     distinct s' \<and> set s' = set s \<union> {g. SgId g \<in> set refs}"
proof (induction s refs arbitrary: s' rule: set_update.induct)
  case (1 s)
  then show ?case by simp
next
  case (2 s g refs)
  from 2 have "distinct s' \<and> set s' = set (set_add g s) \<union> {g. SgId g \<in> set refs}"
    by (simp add: set_add_props)
  then show ?case using 2 by (auto simp: set_add_props)
next
  case (3 s g n refs)
  then show ?case by simp
qed

lemma foldl_set_add_props:
  "distinct s \<Longrightarrow> distinct (foldl (\<lambda>s g. set_add g s) s gs)
     \<and> set (foldl (\<lambda>s g. set_add g s) s gs) = set s \<union> set gs"
proof (induction gs arbitrary: s)
  case Nil
  then show ?case by simp
next
  case (Cons g gs)
  from Cons.prems have d: "distinct (set_add g s)" and e: "set (set_add g s) = insert g (set s)"
    by (simp_all add: set_add_props)
  from Cons.IH [OF d] show ?case by (simp add: e)
qed

lemma fold_err_invariant:
  assumes "\<And>s x s'. I s \<Longrightarrow> f s x = Inr s' \<Longrightarrow> I s'"
  shows "I s \<Longrightarrow> fold_err f xs s = Inr s' \<Longrightarrow> I s'"
proof (induction xs arbitrary: s)
  case Nil
  then show ?case by simp
next
  case (Cons x xs)
  then show ?case using assms by (auto split: sum.splits)
qed

lemma foldl_invariant:
  assumes "\<And>s x. I s \<Longrightarrow> I (f s x)"
  shows "I s \<Longrightarrow> I (foldl f s xs)"
  by (induction xs arbitrary: s) (simp_all add: assms)

lemma owned_ec2:
  "owned_security_groups (en\<lparr>rm_resources := rm_resources en @ [ec2_resource_info i],
                              rm_security_groups := sgs\<rparr>)
     = owned_security_groups en \<union> {g. SgId g \<in> set (ec2_security_groups i)}"
  by (auto simp: owned_security_groups_def ec2_resource_info_def)

lemma owned_lambda:
  "owned_security_groups (en\<lparr>rm_resources := rm_resources en @ [lambda_resource_info f],
                              rm_security_groups := sgs\<rparr>)
     = owned_security_groups en \<union> set (fn_security_groups f)"
  by (auto simp: owned_security_groups_def lambda_resource_info_def)

lemma map_ec2_to_role_inv:
  assumes inv: "\<forall>kv \<in> set (fst st). role_inv (snd kv)"
    and step: "map_ec2_to_role st i = Inr st'"
  shows "\<forall>kv \<in> set (fst st'). role_inv (snd kv)"
proof (cases "iam_instance_profile i")
  case None
  with step inv show ?thesis by (simp add: map_ec2_to_role_def)
next
  case (Some p)
  show ?thesis
  proof (cases "p = [] \<or> map_of (fst st) p = None")
    case True
    with step Some have "st' = st" by (auto simp: map_ec2_to_role_def split: if_splits)
    with inv show ?thesis by simp
  next
    case False
    then obtain entry where entry: "map_of (fst st) p = Some entry" and p: "p \<noteq> []" by auto
    from step Some p entry obtain sgs where
      sgs: "set_update (rm_security_groups entry) (ec2_security_groups i) = Inr sgs"
      and st': "fst st' = AList.map_entry p
                     (\<lambda>en. en\<lparr>rm_resources := rm_resources en @ [ec2_resource_info i],
                              rm_security_groups := sgs\<rparr>) (fst st)"
      by (auto simp: map_ec2_to_role_def split: sum.splits)
    from entry have "(p, entry) \<in> set (fst st)" by (rule map_of_SomeD)
    with inv have ei: "role_inv entry" by auto
    with set_update_props [OF sgs] have
      new: "role_inv (entry\<lparr>rm_resources := rm_resources entry @ [ec2_resource_info i],
                              rm_security_groups := sgs\<rparr>)"
      by (auto simp: role_inv_def owned_ec2)
    show ?thesis
    proof
      fix kv assume "kv \<in> set (fst st')"
      then have "(fst kv, snd kv) \<in> set (AList.map_entry p
                     (\<lambda>en. en\<lparr>rm_resources := rm_resources en @ [ec2_resource_info i],
                              rm_security_groups := sgs\<rparr>) (fst st))"
        by (simp add: st')
      from in_set_map_entry [OF this] show "role_inv (snd kv)"
        using inv new entry by auto
    qed
  qed
qed

lemma map_lambda_to_role_inv:
  assumes inv: "\<forall>kv \<in> set (fst st). role_inv (snd kv)"
  shows "\<forall>kv \<in> set (fst (map_lambda_to_role st f)). role_inv (snd kv)"
proof (cases "role f")
  case None
  with inv show ?thesis by (simp add: map_lambda_to_role_def)
next
  case (Some ra)
  show ?thesis
  proof (cases "ra = [] \<or> map_of (fst st) (last_segment ra) = None")
    case True
    with Some have "map_lambda_to_role st f = st"
      by (auto simp: map_lambda_to_role_def Let_def split: if_splits)
    with inv show ?thesis by simp
  next
    case False
    then obtain entry where entry: "map_of (fst st) (last_segment ra) = Some entry"
      and ra: "ra \<noteq> []" by auto
    let ?upd = "\<lambda>en. en\<lparr>rm_resources := rm_resources en @ [lambda_resource_info f],
                        rm_security_groups :=
                          foldl (\<lambda>s g. set_add g s) (rm_security_groups en) (fn_security_groups f)\<rparr>"
    from Some ra entry have
      st': "fst (map_lambda_to_role st f) = AList.map_entry (last_segment ra) ?upd (fst st)"
      by (simp add: map_lambda_to_role_def Let_def)
    from entry have "(last_segment ra, entry) \<in> set (fst st)" by (rule map_of_SomeD)
    with inv have ei: "role_inv entry" by auto
    then have new: "role_inv (?upd entry)"
      using foldl_set_add_props [of "rm_security_groups entry" "fn_security_groups f"]
      by (auto simp: role_inv_def owned_lambda)
    show ?thesis
    proof
      fix kv assume "kv \<in> set (fst (map_lambda_to_role st f))"
      then have "(fst kv, snd kv) \<in> set (AList.map_entry (last_segment ra) ?upd (fst st))"
        by (simp add: st')
      from in_set_map_entry [OF this] show "role_inv (snd kv)"
        using inv new entry by auto
    qed
  qed
qed

lemma owned_set_order [simp]:
  "owned_security_groups (en\<lparr>rm_security_groups := sgs\<rparr>) = owned_security_groups en"
  by (simp add: owned_security_groups_def)

lemma build_role_resource_map_inv:
  assumes ok: "build_role_resource_map set_order rels iam rd = Inr (rm, rels')"
    and so: "\<And>xs. distinct xs \<Longrightarrow> distinct (set_order xs) \<and> set (set_order xs) = set xs"
  shows "\<forall>kv \<in> set rm. role_inv (snd kv)"
proof -
  let ?m0 = "foldl (\<lambda>m r. AList.update (role_name r) (init_role_entry r) m) [] (roles iam)"
  have i0: "\<forall>kv \<in> set (fst (?m0, rels)). role_inv (snd kv)"
    using init_role_map_inv [of "[]" "roles iam"] by simp
  from ok obtain st where st: "fold_err map_ec2_to_role (ec2_instances rd) (?m0, rels) = Inr st"
    and rm: "rm = map (\<lambda>(k, en). (k, en\<lparr>rm_security_groups := set_order (rm_security_groups en)\<rparr>))
                   (fst (foldl map_lambda_to_role st (lambda_functions rd)))"
    by (auto simp: build_role_resource_map_def Let_def split: sum.splits)
  have i1: "\<forall>kv \<in> set (fst st). role_inv (snd kv)"
    using fold_err_invariant [where I = "\<lambda>s. \<forall>kv \<in> set (fst s). role_inv (snd kv)",
        OF map_ec2_to_role_inv i0 st] .
  have i2: "\<forall>kv \<in> set (fst (foldl map_lambda_to_role st (lambda_functions rd))). role_inv (snd kv)"
    using foldl_invariant [where I = "\<lambda>s. \<forall>kv \<in> set (fst s). role_inv (snd kv)",
        OF map_lambda_to_role_inv i1] .
  show ?thesis
    unfolding rm using i2 so by (auto simp: role_inv_def)
qed

lemma build_relationships_Inr:
  assumes "build_relationships set_order rels iam rd = Inr (out, rels')"
  obtains rm rels1 sm where "build_role_resource_map set_order rels iam rd = Inr (rm, rels1)"
    and "build_security_group_map rels1 rd = Inr (sm, rels')"
    and "role_mappings out = rm" and "security_group_mappings out = sm"
    and "consolidated_view out = build_consolidated_view rm sm"
    and "graph out = build_graph_data rels' rm sm rd"
    and "total_relationships (build_summary out) = length rels'"
proof (cases "build_role_resource_map set_order rels iam rd")
  case (Inl e)
  with assms show ?thesis by (simp add: build_relationships_def)
next
  case r: (Inr p)
  show ?thesis
  proof (cases "build_security_group_map (snd p) rd")
    case (Inl e)
    with assms r show ?thesis by (simp add: build_relationships_def split: prod.splits)
  next
    case (Inr q)
    with assms r that [of "fst p" "snd p" "fst q"] show ?thesis
      by (auto simp: build_relationships_def split: prod.splits)
  qed
qed

lemma in_consolidated_view:
  "v \<in> set (iam_roles (build_consolidated_view rm sm)) \<Longrightarrow>
     \<exists>kv \<in> set rm. rm_resources (snd kv) \<noteq> [] \<and> v = make_role_view sm kv"
  by (auto simp: build_consolidated_view_def)

text \<open>
  C8: the risk rank of a row of the consolidated view is 50 if the role is admin, plus
  20 for each of its resources that is public, plus 15 for each distinct security group
  owned through its resources that has Internet access, clamped to 100 from above; it is
  never negative. \<open>set_order\<close> may enumerate a set in any order.
\<close>

theorem role_risk_rank:
  assumes ok: "build_relationships set_order rels iam rd = Inr (out, rels')"
    and so: "\<forall>xs. distinct xs \<longrightarrow> distinct (set_order xs) \<and> set (set_order xs) = set xs"
    and v: "v \<in> set (iam_roles (consolidated_view out))"
  shows "\<exists>en. (rv_role_name v, en) \<in> set (role_mappings out) \<and> rm_resources en \<noteq> []
      \<and> rv_is_admin v = rm_is_admin en
      \<and> rv_risk_level v =
          min 100 ((if rm_is_admin en then 50 else 0)
                   + 20 * int (length (filter (\<lambda>r. ri_is_public r = Some True) (rm_resources en)))
                   + 15 * int (card {g \<in> owned_security_groups en.
                                      sg_internet_accessible (security_group_mappings out) g}))
      \<and> 0 \<le> rv_risk_level v \<and> rv_risk_level v \<le> 100"
proof -
  from ok obtain rm rels1 sm where
    b: "build_role_resource_map set_order rels iam rd = Inr (rm, rels1)"
    and o: "role_mappings out = rm" "security_group_mappings out = sm"
      "consolidated_view out = build_consolidated_view rm sm"
    by (rule build_relationships_Inr)
  from v o obtain kv where kv: "kv \<in> set rm" "rm_resources (snd kv) \<noteq> []"
    and vv: "v = make_role_view sm kv"
    using in_consolidated_view by metis
  from so have so': "\<And>xs. distinct xs \<Longrightarrow> distinct (set_order xs) \<and> set (set_order xs) = set xs"
    by blast
  from build_role_resource_map_inv [OF b so'] kv have inv: "role_inv (snd kv)" by blast
  then have d: "distinct (rm_security_groups (snd kv))"
    and e: "set (rm_security_groups (snd kv)) = owned_security_groups (snd kv)"
    by (simp_all add: role_inv_def)
  have c: "length (filter (sg_internet_accessible sm) (rm_security_groups (snd kv)))
        = card {g \<in> owned_security_groups (snd kv). sg_internet_accessible sm g}"
    using length_filter_card [OF d] by (simp add: e)
  have r: "rv_risk_level v = calculate_role_risk (snd kv) sm"
    and n: "rv_role_name v = fst kv" and a: "rv_is_admin v = rm_is_admin (snd kv)"
    by (simp_all add: vv make_role_view_def)
  have "(rv_role_name v, snd kv) \<in> set (role_mappings out)"
    using kv by (simp add: n o)
  moreover have "rv_risk_level v =
          min 100 ((if rm_is_admin (snd kv) then 50 else 0)
                   + 20 * int (length (filter (\<lambda>r. ri_is_public r = Some True) (rm_resources (snd kv))))
                   + 15 * int (card {g \<in> owned_security_groups (snd kv).
                                      sg_internet_accessible (security_group_mappings out) g}))"
    unfolding r calculate_role_risk_formula c o ..
  moreover have "0 \<le> rv_risk_level v \<and> rv_risk_level v \<le> 100"
    unfolding r by (rule calculate_role_risk_bounds)
  ultimately show ?thesis using kv a by blast
qed

lemma ex_build_ok: "\<not> isl (build_relationships (\<lambda>xs. xs) RelationshipBuilder_init ex_iam ex_rd_ids)"
  by code_simp

lemma ex_view_row:
  "hd (iam_roles (consolidated_view (fst (projr
       (build_relationships (\<lambda>xs. xs) RelationshipBuilder_init ex_iam ex_rd_ids)))))
     \<in> set (iam_roles (consolidated_view (fst (projr
       (build_relationships (\<lambda>xs. xs) RelationshipBuilder_init ex_iam ex_rd_ids)))))"
  by code_simp

lemma ex_view_rank:
  "rv_risk_level (hd (iam_roles (consolidated_view (fst (projr
       (build_relationships (\<lambda>xs. xs) RelationshipBuilder_init ex_iam ex_rd_ids)))))) = 85"
  by code_simp

text \<open>
  The admin role \<open>ops\<close> with one public instance and, among its two groups, one that is
  open to the Internet: 50 + 20 + 15.
\<close>

theorem role_risk_rank_witness:
  "\<exists>out rels' v en. build_relationships (\<lambda>xs. xs) RelationshipBuilder_init ex_iam ex_rd_ids
        = Inr (out, rels')
     \<and> v \<in> set (iam_roles (consolidated_view out))
     \<and> (rv_role_name v, en) \<in> set (role_mappings out)
     \<and> rv_risk_level v = 85
     \<and> rv_risk_level v =
          min 100 ((if rm_is_admin en then 50 else 0)
                   + 20 * int (length (filter (\<lambda>r. ri_is_public r = Some True) (rm_resources en)))
                   + 15 * int (card {g \<in> owned_security_groups en.
                                      sg_internet_accessible (security_group_mappings out) g}))"
proof -
  let ?b = "build_relationships (\<lambda>xs. xs) RelationshipBuilder_init ex_iam ex_rd_ids"
  let ?out = "fst (projr ?b)"
  let ?v = "hd (iam_roles (consolidated_view ?out))"
  have b: "?b = Inr (?out, snd (projr ?b))"
    using ex_build_ok by (rule Inr_projr)
  have so: "\<forall>xs :: string list. distinct xs \<longrightarrow> distinct ((\<lambda>xs. xs) xs) \<and> set ((\<lambda>xs. xs) xs) = set xs"
    by simp
  from role_risk_rank [OF b so ex_view_row] obtain en where
    "(rv_role_name ?v, en) \<in> set (role_mappings ?out)"
    and "rv_risk_level ?v =
          min 100 ((if rm_is_admin en then 50 else 0)
                   + 20 * int (length (filter (\<lambda>r. ri_is_public r = Some True) (rm_resources en)))
                   + 15 * int (card {g \<in> owned_security_groups en.
                                      sg_internet_accessible (security_group_mappings ?out) g}))"
    by blast
  with b ex_view_row ex_view_rank show ?thesis by blast
qed

lemma with_acc_simps [simp]:
  "with_acc rels (Inl e) = Inl e"
  "with_acc rels (Inr (m, r)) = Inr (m, rels @ r)"
  by (simp_all add: with_acc_def)

lemma with_acc_with_acc [simp]: "with_acc rels (with_acc r1 res) = with_acc (rels @ r1) res"
  by (cases res) (auto simp: with_acc_def)

lemma with_acc_Nil [simp]: "with_acc [] res = res"
  by (cases res) (auto simp: with_acc_def)

lemma fold_err_acc:
  assumes step: "\<And>m rels x. f (m, rels) x = with_acc rels (f (m, []) x)"
  shows "fold_err f xs (m, rels) = with_acc rels (fold_err f xs (m, []))"
proof (induction xs arbitrary: m rels)
  case Nil
  then show ?case by simp
next
  case (Cons x xs)
  show ?case
  proof (cases "f (m, []) x")
    case (Inl e)
    then show ?thesis using step [of m rels x] by simp
  next
    case (Inr p)
    obtain m1 r1 where p: "p = (m1, r1)" by (cases p)
    have "fold_err f (x # xs) (m, rels) = fold_err f xs (m1, rels @ r1)"
      using step [of m rels x] Inr p by simp
    also have "\<dots> = with_acc (rels @ r1) (fold_err f xs (m1, []))"
      by (rule Cons.IH)
    also have "\<dots> = with_acc rels (with_acc r1 (fold_err f xs (m1, [])))"
      by simp
    also have "with_acc r1 (fold_err f xs (m1, [])) = fold_err f xs (m1, r1)"
      by (rule Cons.IH [symmetric])
    also have "fold_err f xs (m1, r1) = fold_err f (x # xs) (m, [])"
      using Inr p by simp
    finally show ?thesis .
  qed
qed

lemma foldl_acc:
  assumes step: "\<And>m rels x. g (m, rels) x = (fst (g (m, []) x), rels @ snd (g (m, []) x))"
  shows "foldl g (m, rels) xs = (fst (foldl g (m, []) xs), rels @ snd (foldl g (m, []) xs))"
proof (induction xs arbitrary: m rels)
  case Nil
  then show ?case by simp
next
  case (Cons x xs)
  obtain m1 r1 where p: "g (m, []) x = (m1, r1)" by (cases "g (m, []) x")
  have "foldl g (m, rels) (x # xs) = foldl g (m1, rels @ r1) xs"
    using step [of m rels x] p by simp
  also have "\<dots> = (fst (foldl g (m1, []) xs), (rels @ r1) @ snd (foldl g (m1, []) xs))"
    by (rule Cons.IH)
  also have "\<dots> = (fst (foldl g (m1, r1) xs), rels @ snd (foldl g (m1, r1) xs))"
    by (subst (2 3) Cons.IH) simp
  also have "foldl g (m1, r1) xs = foldl g (m, []) (x # xs)"
    using p by simp
  finally show ?case .
qed

lemma map_ec2_to_role_acc:
  "map_ec2_to_role (m, rels) i = with_acc rels (map_ec2_to_role (m, []) i)"
  by (simp add: map_ec2_to_role_def split: option.splits sum.splits)

lemma map_lambda_to_role_acc:
  "map_lambda_to_role (m, rels) f =
     (fst (map_lambda_to_role (m, []) f), rels @ snd (map_lambda_to_role (m, []) f))"
  by (simp add: map_lambda_to_role_def Let_def split: option.splits)

lemma build_role_resource_map_acc:
  "build_role_resource_map so rels iam rd = with_acc rels (build_role_resource_map so [] iam rd)"
proof -
  let ?m0 = "foldl (\<lambda>m r. AList.update (role_name r) (init_role_entry r) m) [] (roles iam)"
  have e: "fold_err map_ec2_to_role (ec2_instances rd) (?m0, rels)
             = with_acc rels (fold_err map_ec2_to_role (ec2_instances rd) (?m0, []))"
    by (rule fold_err_acc) (rule map_ec2_to_role_acc)
  show ?thesis
  proof (cases "fold_err map_ec2_to_role (ec2_instances rd) (?m0, [])")
    case (Inl err)
    then show ?thesis by (simp add: build_role_resource_map_def Let_def e)
  next
    case (Inr p)
    obtain m1 r1 where p: "p = (m1, r1)" by (cases p)
    have l: "foldl map_lambda_to_role (m1, rels @ r1) (lambda_functions rd)
             = (fst (foldl map_lambda_to_role (m1, []) (lambda_functions rd)),
                (rels @ r1) @ snd (foldl map_lambda_to_role (m1, []) (lambda_functions rd)))"
      by (rule foldl_acc) (rule map_lambda_to_role_acc)
    have l0: "foldl map_lambda_to_role (m1, r1) (lambda_functions rd)
             = (fst (foldl map_lambda_to_role (m1, []) (lambda_functions rd)),
                r1 @ snd (foldl map_lambda_to_role (m1, []) (lambda_functions rd)))"
      by (rule foldl_acc) (rule map_lambda_to_role_acc)
    show ?thesis
      by (simp add: build_role_resource_map_def Let_def e Inr p l l0)
  qed
qed

lemma attach_to_sg_acc:
  "attach_to_sg res (m, rels) g = (fst (attach_to_sg res (m, []) g), rels @ snd (attach_to_sg res (m, []) g))"
  by (simp add: attach_to_sg_def Let_def split: option.splits)

lemma attach_ec2_to_sg_acc:
  "attach_ec2_to_sg i (m, rels) ref = with_acc rels (attach_ec2_to_sg i (m, []) ref)"
  by (cases ref) (simp_all add: attach_to_sg_def Let_def split: option.splits)

lemma foldl_attach_acc:
  "foldl (attach_to_sg res) (m, rels) gs =
     (fst (foldl (attach_to_sg res) (m, []) gs), rels @ snd (foldl (attach_to_sg res) (m, []) gs))"
  by (rule foldl_acc) (rule attach_to_sg_acc)

lemma build_security_group_map_acc:
  "build_security_group_map rels rd = with_acc rels (build_security_group_map [] rd)"
proof -
  let ?m0 = "foldl (\<lambda>m sg. AList.update (group_id sg) (init_sg_entry sg) m) [] (security_groups rd)"
  let ?e = "\<lambda>st instance. fold_err (attach_ec2_to_sg instance) (ec2_security_groups instance) st"
  let ?l = "\<lambda>st function. foldl (attach_to_sg (lambda_sg_resource function)) st (fn_security_groups function)"
  let ?r = "\<lambda>st instance. foldl (attach_to_sg (rds_sg_resource instance)) st (rds_security_groups instance)"
  have estep: "\<And>m rels x. ?e (m, rels) x = with_acc rels (?e (m, []) x)"
    by (rule fold_err_acc) (rule attach_ec2_to_sg_acc)
  have lstep: "\<And>m rels x. ?l (m, rels) x = (fst (?l (m, []) x), rels @ snd (?l (m, []) x))"
    by (rule foldl_attach_acc)
  have rstep: "\<And>m rels x. ?r (m, rels) x = (fst (?r (m, []) x), rels @ snd (?r (m, []) x))"
    by (rule foldl_attach_acc)
  have e: "fold_err ?e (ec2_instances rd) (?m0, rels) = with_acc rels (fold_err ?e (ec2_instances rd) (?m0, []))"
    by (rule fold_err_acc) (rule estep)
  show ?thesis
  proof (cases "fold_err ?e (ec2_instances rd) (?m0, [])")
    case (Inl err)
    then show ?thesis by (simp add: build_security_group_map_def Let_def e)
  next
    case (Inr p)
    obtain m1 r1 where p: "p = (m1, r1)" by (cases p)
    obtain m2 r2 where l2: "foldl ?l (m1, []) (lambda_functions rd) = (m2, r2)"
      by (cases "foldl ?l (m1, []) (lambda_functions rd)")
    have la: "\<And>rs. foldl ?l (m1, rs) (lambda_functions rd) = (m2, rs @ r2)"
      using foldl_acc [of ?l, OF lstep, of m1 _ "lambda_functions rd"] l2 by simp
    obtain m3 r3 where l3: "foldl ?r (m2, []) (rds_instances rd) = (m3, r3)"
      by (cases "foldl ?r (m2, []) (rds_instances rd)")
    have ra: "\<And>rs. foldl ?r (m2, rs) (rds_instances rd) = (m3, rs @ r3)"
      using foldl_acc [of ?r, OF rstep, of m2 _ "rds_instances rd"] l3 by simp
    show ?thesis
      by (simp add: build_security_group_map_def Let_def e Inr p la ra)
  qed
qed

lemma with_acc_Inr:
  "with_acc rels res = Inr (m, rels') \<Longrightarrow> \<exists>r. res = Inr (m, r) \<and> rels' = rels @ r"
  by (cases res) (auto simp: with_acc_def)

lemma build_relationships_fresh:
  assumes "build_relationships set_order rels iam rd = Inr (out, rels')"
  shows "\<exists>out0 rels0. build_relationships set_order RelationshipBuilder_init iam rd = Inr (out0, rels0)
         \<and> rels' = rels @ rels0
         \<and> role_mappings out = role_mappings out0
         \<and> security_group_mappings out = security_group_mappings out0
         \<and> consolidated_view out = consolidated_view out0
         \<and> nodes (graph out) = nodes (graph out0)"
proof -
  from assms obtain rm rels1 sm where
    r: "build_role_resource_map set_order rels iam rd = Inr (rm, rels1)"
    and s: "build_security_group_map rels1 rd = Inr (sm, rels')"
    and o: "role_mappings out = rm" "security_group_mappings out = sm"
      "consolidated_view out = build_consolidated_view rm sm"
      "graph out = build_graph_data rels' rm sm rd"
    by (rule build_relationships_Inr)
  from r obtain r1 where r0: "build_role_resource_map set_order [] iam rd = Inr (rm, r1)"
    and r1: "rels1 = rels @ r1"
    using with_acc_Inr build_role_resource_map_acc by metis
  from s obtain r2 where s0: "build_security_group_map [] rd = Inr (sm, r2)"
    and r2: "rels' = rels1 @ r2"
    using with_acc_Inr build_security_group_map_acc by metis
  have s1: "build_security_group_map r1 rd = Inr (sm, r1 @ r2)"
    by (subst build_security_group_map_acc) (simp add: s0)
  from build_relationships_graph [OF r0 s1] obtain out0 where
    b0: "build_relationships set_order [] iam rd = Inr (out0, r1 @ r2)"
    and o0: "role_mappings out0 = rm" "security_group_mappings out0 = sm"
      "consolidated_view out0 = build_consolidated_view rm sm"
      "graph out0 = build_graph_data (r1 @ r2) rm sm rd"
    by blast
  have "nodes (graph out) = nodes (graph out0)"
    by (simp add: o o0 nodes_build_graph_data)
  with b0 o o0 r1 r2 show ?thesis
    by (simp add: RelationshipBuilder_init_def)
qed

lemma analyze_all_fresh:
  assumes "analyze_all cfg now rs iam rd = Inr (a, rs')"
  shows "\<exists>a0 rs0. analyze_all cfg now RiskAnalyzer_init iam rd = Inr (a0, rs0)
         \<and> timestamp a = timestamp a0
         \<and> identity_risks a = identity_risks a0 \<and> resource_risks a = resource_risks a0
         \<and> network_risks a = network_risks a0 \<and> compliance_risks a = compliance_risks a0
         \<and> top_risks a = top_risks a0
         \<and> total_risks (summary a) = total_risks (summary a0)"
proof -
  from assms obtain res where r: "analyze_resource_risks rd = Inr res"
    and o: "identity_risks a = analyze_identity_risks iam" "resource_risks a = res"
      "network_risks a = analyze_network_risks rd" "compliance_risks a = []"
      "top_risks a = take 10
           (sort_by_score (analyze_identity_risks iam @ res @ analyze_network_risks rd @ []))"
      "total_risks (summary a) = length
           (sort_by_score (analyze_identity_risks iam @ res @ analyze_network_risks rd @ []))"
      "timestamp a = now"
    by (rule analyze_all_Inr)
  from analyze_all_total [OF r] obtain a0 rs0 where
    a0: "analyze_all cfg now RiskAnalyzer_init iam rd = Inr (a0, rs0)"
    by blast
  from a0 obtain res0 where r0: "analyze_resource_risks rd = Inr res0"
    and o0: "identity_risks a0 = analyze_identity_risks iam" "resource_risks a0 = res0"
      "network_risks a0 = analyze_network_risks rd" "compliance_risks a0 = []"
      "top_risks a0 = take 10
           (sort_by_score (analyze_identity_risks iam @ res0 @ analyze_network_risks rd @ []))"
      "total_risks (summary a0) = length
           (sort_by_score (analyze_identity_risks iam @ res0 @ analyze_network_risks rd @ []))"
      "timestamp a0 = now"
    by (rule analyze_all_Inr)
  from r r0 have "res0 = res" by simp
  with a0 o o0 show ?thesis by simp
qed

text \<open>
  The enumeration order of the sets enters the role map in one place: the result is that of
  a build which enumerates in insertion order, with every role's list enumerated again.
\<close>

lemma build_role_resource_map_set_order:
  "build_role_resource_map so rels iam rd =
     (case build_role_resource_map id rels iam rd of
        Inl e \<Rightarrow> Inl e
      | Inr (rm, r) \<Rightarrow>
          Inr (map (\<lambda>(k, en). (k, en\<lparr>rm_security_groups := so (rm_security_groups en)\<rparr>)) rm, r))"
  by (simp add: build_role_resource_map_def Let_def case_prod_unfold split: sum.splits)

lemma graph_nodes_set_order:
  "graph_nodes (map (\<lambda>(k, en). (k, en\<lparr>rm_security_groups := so (rm_security_groups en)\<rparr>)) rm) sm rd
     = graph_nodes rm sm rd"
proof -
  have "map role_node (filter (\<lambda>kv. rm_resources (snd kv) \<noteq> [])
          (map (\<lambda>(k, en). (k, en\<lparr>rm_security_groups := so (rm_security_groups en)\<rparr>)) rm))
        = map role_node (filter (\<lambda>kv. rm_resources (snd kv) \<noteq> []) rm)"
    by (induction rm) (auto simp: role_node_def)
  then show ?thesis by (simp add: graph_nodes_def)
qed

lemma build_graph_data_set_order:
  "build_graph_data rels (map (\<lambda>(k, en). (k, en\<lparr>rm_security_groups := so (rm_security_groups en)\<rparr>)) rm) sm rd
     = build_graph_data rels rm sm rd"
  by (simp add: build_graph_data_def graph_nodes_set_order)

lemma has_resources_set_order:
  "(\<lambda>kv. rm_resources (snd kv) \<noteq> []) \<circ>
     (\<lambda>(k, en). (k, en\<lparr>rm_security_groups := so (rm_security_groups en)\<rparr>))
   = (\<lambda>kv. rm_resources (snd kv) \<noteq> [])"
  by (auto simp: fun_eq_iff)

lemma insort_key_map_same:
  assumes "\<And>x. k (h x) = k x"
  shows "insort_key k (h x) (map h ys) = map h (insort_key k x ys)"
  by (induction ys) (simp_all add: assms)

lemma sort_key_map_same:
  assumes "\<And>x. k (h x) = k x"
  shows "sort_key k (map h xs) = map h (sort_key k xs)"
proof (induction xs)
  case Nil
  then show ?case by simp
next
  case (Cons x xs)
  have "sort_key k (map h (x # xs)) = insort_key k (h x) (sort_key k (map h xs))" by simp
  also have "\<dots> = insort_key k (h x) (map h (sort_key k xs))" by (simp only: Cons.IH)
  also have "\<dots> = map h (insort_key k x (sort_key k xs))"
    using assms by (rule insort_key_map_same)
  finally show ?case by simp
qed

lemma calculate_role_risk_set_order:
  assumes "distinct sgs" and "distinct sgs'" and "set sgs' = set sgs"
  shows "calculate_role_risk (en\<lparr>rm_security_groups := sgs'\<rparr>) sm
         = calculate_role_risk (en\<lparr>rm_security_groups := sgs\<rparr>) sm"
  using assms by (simp add: calculate_role_risk_formula length_filter_card)

lemma make_role_view_set_order:
  assumes d: "distinct (rm_security_groups en)"
    and so: "\<forall>xs. distinct xs \<longrightarrow> distinct (so xs) \<and> set (so xs) = set xs"
  shows "(make_role_view sm (k, en\<lparr>rm_security_groups := so (rm_security_groups en)\<rparr>))
            \<lparr>rv_security_groups := []\<rparr>
         = (make_role_view sm (k, en))\<lparr>rv_security_groups := []\<rparr>"
proof -
  from d so have d': "distinct (so (rm_security_groups en))"
    and s': "set (so (rm_security_groups en)) = set (rm_security_groups en)"
    by blast+
  have l: "length (so (rm_security_groups en)) = length (rm_security_groups en)"
    using distinct_card [OF d] distinct_card [OF d'] s' by simp
  have r: "calculate_role_risk (en\<lparr>rm_security_groups := so (rm_security_groups en)\<rparr>) sm
           = calculate_role_risk en sm"
    using calculate_role_risk_set_order [OF d d' s', of en sm] by simp
  show ?thesis by (simp add: make_role_view_def l r)
qed

lemma build_consolidated_view_set_order:
  assumes inv: "\<forall>kv \<in> set rm. distinct (rm_security_groups (snd kv))"
    and so: "\<forall>xs. distinct xs \<longrightarrow> distinct (so xs) \<and> set (so xs) = set xs"
  shows "map (\<lambda>v. v\<lparr>rv_security_groups := []\<rparr>)
           (iam_roles (build_consolidated_view
              (map (\<lambda>(k, en). (k, en\<lparr>rm_security_groups := so (rm_security_groups en)\<rparr>)) rm) sm))
         = map (\<lambda>v. v\<lparr>rv_security_groups := []\<rparr>)
             (iam_roles (build_consolidated_view rm sm))"
proof -
  let ?f = "\<lambda>(k, en). (k, en\<lparr>rm_security_groups := so (rm_security_groups en)\<rparr>)"
  let ?h = "\<lambda>v. v\<lparr>rv_security_groups := []\<rparr>"
  let ?k = "\<lambda>v. - rv_risk_level v"
  let ?P = "\<lambda>kv. rm_resources (snd kv) \<noteq> []"
  have k: "\<And>v. ?k (?h v) = ?k v" by simp
  have m: "map ?h (map (make_role_view sm) (filter ?P (map ?f rm)))
           = map ?h (map (make_role_view sm) (filter ?P rm))"
    using inv
  proof (induction rm)
    case Nil
    then show ?case by simp
  next
    case (Cons kv rm)
    obtain k en where kv: "kv = (k, en)" by (cases kv)
    from Cons.prems kv have d: "distinct (rm_security_groups en)" by simp
    from Cons have ih: "map ?h (map (make_role_view sm) (filter ?P (map ?f rm)))
           = map ?h (map (make_role_view sm) (filter ?P rm))" by simp
    show ?case
      using ih make_role_view_set_order [OF d so, of sm k] by (simp add: kv)
  qed
  have "map ?h (iam_roles (build_consolidated_view (map ?f rm) sm))
        = map ?h (sort_key ?k (map (make_role_view sm) (filter ?P (map ?f rm))))"
    by (simp add: build_consolidated_view_def)
  also have "\<dots> = sort_key ?k (map ?h (map (make_role_view sm) (filter ?P (map ?f rm))))"
    by (rule sort_key_map_same [symmetric]) simp
  also have "\<dots> = sort_key ?k (map ?h (map (make_role_view sm) (filter ?P rm)))"
    by (simp only: m)
  also have "\<dots> = map ?h (sort_key ?k (map (make_role_view sm) (filter ?P rm)))"
    by (rule sort_key_map_same) simp
  also have "\<dots> = map ?h (iam_roles (build_consolidated_view rm sm))"
    by (simp add: build_consolidated_view_def)
  finally show ?thesis .
qed


lemma build_relationships_set_order_eq:
  "build_relationships so rels iam rd =
     (case build_relationships id rels iam rd of
        Inl e \<Rightarrow> Inl e
      | Inr (out1, r) \<Rightarrow>
          Inr (out1\<lparr>role_mappings :=
                      map (\<lambda>(k, en). (k, en\<lparr>rm_security_groups := so (rm_security_groups en)\<rparr>))
                        (role_mappings out1),
                    consolidated_view :=
                      build_consolidated_view
                        (map (\<lambda>(k, en). (k, en\<lparr>rm_security_groups := so (rm_security_groups en)\<rparr>))
                           (role_mappings out1))
                        (security_group_mappings out1)\<rparr>, r))"
proof (cases "build_role_resource_map id rels iam rd")
  case (Inl e)
  then have "build_role_resource_map so rels iam rd = Inl e"
    by (subst build_role_resource_map_set_order) simp
  with Inl show ?thesis by (simp add: build_relationships_def)
next
  case (Inr p)
  obtain rm r where p: "p = (rm, r)" by (cases p)
  from Inr p have "build_role_resource_map so rels iam rd
      = Inr (map (\<lambda>(k, en). (k, en\<lparr>rm_security_groups := so (rm_security_groups en)\<rparr>)) rm, r)"
    by (subst build_role_resource_map_set_order) simp
  with Inr p show ?thesis
    by (simp add: build_relationships_def build_graph_data_set_order
        has_resources_set_order split: sum.splits)
qed

lemma build_relationships_set_order:
  assumes ok: "build_relationships so rels iam rd = Inr (out, rels')"
    and so: "\<forall>xs. distinct xs \<longrightarrow> distinct (so xs) \<and> set (so xs) = set xs"
  shows "\<exists>out1. build_relationships id rels iam rd = Inr (out1, rels')
       \<and> role_mappings out =
           map (\<lambda>(k, en). (k, en\<lparr>rm_security_groups := so (rm_security_groups en)\<rparr>))
             (role_mappings out1)
       \<and> security_group_mappings out = security_group_mappings out1
       \<and> graph out = graph out1
       \<and> build_summary out = build_summary out1
       \<and> map (\<lambda>v. v\<lparr>rv_security_groups := []\<rparr>) (iam_roles (consolidated_view out))
           = map (\<lambda>v. v\<lparr>rv_security_groups := []\<rparr>) (iam_roles (consolidated_view out1))
       \<and> orphaned_resources (consolidated_view out) = orphaned_resources (consolidated_view out1)"
proof -
  from ok obtain out1 where b1: "build_relationships id rels iam rd = Inr (out1, rels')"
    and out: "out = out1\<lparr>role_mappings :=
                      map (\<lambda>(k, en). (k, en\<lparr>rm_security_groups := so (rm_security_groups en)\<rparr>))
                        (role_mappings out1),
                    consolidated_view :=
                      build_consolidated_view
                        (map (\<lambda>(k, en). (k, en\<lparr>rm_security_groups := so (rm_security_groups en)\<rparr>))
                           (role_mappings out1))
                        (security_group_mappings out1)\<rparr>"
    by (subst (asm) build_relationships_set_order_eq) (auto split: sum.splits)
  from b1 obtain rm rels1 sm where
    r: "build_role_resource_map id rels iam rd = Inr (rm, rels1)"
    and o: "role_mappings out1 = rm" "security_group_mappings out1 = sm"
      "consolidated_view out1 = build_consolidated_view rm sm"
    by (rule build_relationships_Inr)
  have "\<forall>kv \<in> set rm. role_inv (snd kv)"
    by (rule build_role_resource_map_inv [OF r]) simp
  then have d: "\<forall>kv \<in> set rm. distinct (rm_security_groups (snd kv))"
    by (simp add: role_inv_def)
  have v: "map (\<lambda>v. v\<lparr>rv_security_groups := []\<rparr>) (iam_roles (consolidated_view out))
           = map (\<lambda>v. v\<lparr>rv_security_groups := []\<rparr>) (iam_roles (consolidated_view out1))"
    using build_consolidated_view_set_order [OF d so, of sm] by (simp add: out o)
  have w: "orphaned_resources (consolidated_view out) = orphaned_resources (consolidated_view out1)"
    by (simp add: out o build_consolidated_view_def)
  from b1 v w show ?thesis by (simp add: out)
qed

lemma analyze_all_clock:
  assumes "analyze_all cfg now rs iam rd = Inr (a, rs')"
  shows "analyze_all cfg now' rs iam rd = Inr (a\<lparr>timestamp := now'\<rparr>, rs')"
  using assms by (auto simp: analyze_all_def Let_def split: sum.splits)

text \<open>
  C3, as amended. Let \<open>set_order\<close> enumerate every set without loss or repetition. A call
  of \<open>analyze_all\<close> at another clock reading returns the same output with the other
  timestamp, and on an analyzer that was used before it returns the timestamp, the findings
  of every category, the top findings and the total count of a fresh analyzer. A call of
  \<open>build_relationships\<close> returns what a build enumerating in insertion order returns: the
  same security-group map, graph and summary, the same role map but for the order of each
  role's security-group list, and the same consolidated view but for each row's list of
  security-group details; on a builder that was used before it returns the role map,
  security-group map, consolidated view and node list of a fresh builder.
\<close>

theorem runs_agree_up_to_clock_set_order_and_reuse:
  assumes so: "\<forall>xs. distinct xs \<longrightarrow> distinct (set_order xs) \<and> set (set_order xs) = set xs"
  shows
  "(analyze_all cfg now rs iam rd = Inr (a, rs') \<longrightarrow>
      analyze_all cfg now' rs iam rd = Inr (a\<lparr>timestamp := now'\<rparr>, rs')
    \<and> (\<exists>a0 rs0. analyze_all cfg now RiskAnalyzer_init iam rd = Inr (a0, rs0)
         \<and> timestamp a = timestamp a0
         \<and> identity_risks a = identity_risks a0 \<and> resource_risks a = resource_risks a0
         \<and> network_risks a = network_risks a0 \<and> compliance_risks a = compliance_risks a0
         \<and> top_risks a = top_risks a0
         \<and> total_risks (summary a) = total_risks (summary a0)))
   \<and> (build_relationships set_order rels iam rd = Inr (out, rels') \<longrightarrow>
      (\<exists>out1. build_relationships id rels iam rd = Inr (out1, rels')
         \<and> role_mappings out =
             map (\<lambda>(k, en). (k, en\<lparr>rm_security_groups := set_order (rm_security_groups en)\<rparr>))
               (role_mappings out1)
         \<and> security_group_mappings out = security_group_mappings out1
         \<and> graph out = graph out1
         \<and> build_summary out = build_summary out1
         \<and> map (\<lambda>v. v\<lparr>rv_security_groups := []\<rparr>) (iam_roles (consolidated_view out))
             = map (\<lambda>v. v\<lparr>rv_security_groups := []\<rparr>) (iam_roles (consolidated_view out1))
         \<and> orphaned_resources (consolidated_view out) = orphaned_resources (consolidated_view out1))
    \<and> (\<exists>out0 rels0. build_relationships set_order RelationshipBuilder_init iam rd = Inr (out0, rels0)
         \<and> role_mappings out = role_mappings out0
         \<and> security_group_mappings out = security_group_mappings out0
         \<and> consolidated_view out = consolidated_view out0
         \<and> nodes (graph out) = nodes (graph out0)))"
proof -
  have 1: "analyze_all cfg now rs iam rd = Inr (a, rs') \<longrightarrow>
      analyze_all cfg now' rs iam rd = Inr (a\<lparr>timestamp := now'\<rparr>, rs')
    \<and> (\<exists>a0 rs0. analyze_all cfg now RiskAnalyzer_init iam rd = Inr (a0, rs0)
         \<and> timestamp a = timestamp a0
         \<and> identity_risks a = identity_risks a0 \<and> resource_risks a = resource_risks a0
         \<and> network_risks a = network_risks a0 \<and> compliance_risks a = compliance_risks a0
         \<and> top_risks a = top_risks a0
         \<and> total_risks (summary a) = total_risks (summary a0))"
    using analyze_all_clock analyze_all_fresh by blast
  have 2: "build_relationships set_order rels iam rd = Inr (out, rels') \<longrightarrow>
      (\<exists>out1. build_relationships id rels iam rd = Inr (out1, rels')
         \<and> role_mappings out =
             map (\<lambda>(k, en). (k, en\<lparr>rm_security_groups := set_order (rm_security_groups en)\<rparr>))
               (role_mappings out1)
         \<and> security_group_mappings out = security_group_mappings out1
         \<and> graph out = graph out1
         \<and> build_summary out = build_summary out1
         \<and> map (\<lambda>v. v\<lparr>rv_security_groups := []\<rparr>) (iam_roles (consolidated_view out))
             = map (\<lambda>v. v\<lparr>rv_security_groups := []\<rparr>) (iam_roles (consolidated_view out1))
         \<and> orphaned_resources (consolidated_view out) = orphaned_resources (consolidated_view out1))
    \<and> (\<exists>out0 rels0. build_relationships set_order RelationshipBuilder_init iam rd = Inr (out0, rels0)
         \<and> role_mappings out = role_mappings out0
         \<and> security_group_mappings out = security_group_mappings out0
         \<and> consolidated_view out = consolidated_view out0
         \<and> nodes (graph out) = nodes (graph out0))"
  proof
    assume ok: "build_relationships set_order rels iam rd = Inr (out, rels')"
    from build_relationships_set_order [OF ok so] build_relationships_fresh [OF ok]
    show "(\<exists>out1. build_relationships id rels iam rd = Inr (out1, rels')
         \<and> role_mappings out =
             map (\<lambda>(k, en). (k, en\<lparr>rm_security_groups := set_order (rm_security_groups en)\<rparr>))
               (role_mappings out1)
         \<and> security_group_mappings out = security_group_mappings out1
         \<and> graph out = graph out1
         \<and> build_summary out = build_summary out1
         \<and> map (\<lambda>v. v\<lparr>rv_security_groups := []\<rparr>) (iam_roles (consolidated_view out))
             = map (\<lambda>v. v\<lparr>rv_security_groups := []\<rparr>) (iam_roles (consolidated_view out1))
         \<and> orphaned_resources (consolidated_view out) = orphaned_resources (consolidated_view out1))
    \<and> (\<exists>out0 rels0. build_relationships set_order RelationshipBuilder_init iam rd = Inr (out0, rels0)
         \<and> role_mappings out = role_mappings out0
         \<and> security_group_mappings out = security_group_mappings out0
         \<and> consolidated_view out = consolidated_view out0
         \<and> nodes (graph out) = nodes (graph out0))"
      by blast
  qed
  from 1 2 show ?thesis ..
qed

lemma ex_fresh_build_ok: "\<not> isl fresh_build \<and> \<not> isl fresh_build_other_order \<and> \<not> isl reused_build"
  by code_simp

lemma ex_fresh_analysis_ok:
  "\<not> isl fresh_analysis \<and> \<not> isl fresh_analysis_later \<and> \<not> isl reused_analysis"
  by code_simp

text \<open>
  A second call on a used analyzer and on a used builder, in a process whose sets enumerate
  in reverse, compared with the runs of the theorem.
\<close>

theorem runs_agree_up_to_clock_set_order_and_reuse_witness:
  "\<exists>a rs' a0 rs0 out rels' out1 out0 rels0.
      analyze_all default_settings ''2026-01-01T00:00:00'' (snd (projr fresh_analysis)) ex_iam ex_rd_vpc
        = Inr (a, rs')
    \<and> analyze_all default_settings ''2026-01-01T00:00:01'' (snd (projr fresh_analysis)) ex_iam ex_rd_vpc
        = Inr (a\<lparr>timestamp := ''2026-01-01T00:00:01''\<rparr>, rs')
    \<and> analyze_all default_settings ''2026-01-01T00:00:00'' RiskAnalyzer_init ex_iam ex_rd_vpc
        = Inr (a0, rs0)
    \<and> identity_risks a = identity_risks a0 \<and> network_risks a = network_risks a0
    \<and> top_risks a = top_risks a0 \<and> total_risks (summary a) = total_risks (summary a0)
    \<and> build_relationships rev (snd (projr fresh_build)) ex_iam ex_rd_vpc = Inr (out, rels')
    \<and> build_relationships id (snd (projr fresh_build)) ex_iam ex_rd_vpc = Inr (out1, rels')
    \<and> role_mappings out =
          map (\<lambda>(k, en). (k, en\<lparr>rm_security_groups := rev (rm_security_groups en)\<rparr>))
            (role_mappings out1)
    \<and> security_group_mappings out = security_group_mappings out1
    \<and> graph out = graph out1 \<and> build_summary out = build_summary out1
    \<and> map (\<lambda>v. v\<lparr>rv_security_groups := []\<rparr>) (iam_roles (consolidated_view out))
          = map (\<lambda>v. v\<lparr>rv_security_groups := []\<rparr>) (iam_roles (consolidated_view out1))
    \<and> build_relationships rev RelationshipBuilder_init ex_iam ex_rd_vpc = Inr (out0, rels0)
    \<and> role_mappings out = role_mappings out0
    \<and> consolidated_view out = consolidated_view out0
    \<and> nodes (graph out) = nodes (graph out0)"
proof -
  let ?a = "fst (projr reused_analysis)" and ?rs = "snd (projr reused_analysis)"
  let ?out = "fst (projr reused_build)" and ?rels = "snd (projr reused_build)"
  have a: "analyze_all default_settings ''2026-01-01T00:00:00'' (snd (projr fresh_analysis))
             ex_iam ex_rd_vpc = Inr (?a, ?rs)"
    using ex_fresh_analysis_ok Inr_projr [of reused_analysis] by (simp add: reused_analysis_def)
  have b: "build_relationships rev (snd (projr fresh_build)) ex_iam ex_rd_vpc = Inr (?out, ?rels)"
    using ex_fresh_build_ok Inr_projr [of reused_build] by (simp add: reused_build_def)
  have so: "\<forall>xs :: string list. distinct xs \<longrightarrow> distinct (rev xs) \<and> set (rev xs) = set xs"
    by simp
  note t = runs_agree_up_to_clock_set_order_and_reuse
    [where set_order = rev and cfg = default_settings and now = "''2026-01-01T00:00:00''"
       and now' = "''2026-01-01T00:00:01''" and rs = "snd (projr fresh_analysis)"
       and iam = ex_iam and rd = ex_rd_vpc and a = ?a and rs' = ?rs
       and rels = "snd (projr fresh_build)" and out = ?out and rels' = ?rels, OF so]
  from t a obtain a0 rs0 where
    1: "analyze_all default_settings ''2026-01-01T00:00:01'' (snd (projr fresh_analysis)) ex_iam ex_rd_vpc
        = Inr (?a\<lparr>timestamp := ''2026-01-01T00:00:01''\<rparr>, ?rs)"
    "analyze_all default_settings ''2026-01-01T00:00:00'' RiskAnalyzer_init ex_iam ex_rd_vpc
        = Inr (a0, rs0)"
    "identity_risks ?a = identity_risks a0" "network_risks ?a = network_risks a0"
    "top_risks ?a = top_risks a0" "total_risks (summary ?a) = total_risks (summary a0)"
    by blast
  from t b obtain out1 where
    2: "build_relationships id (snd (projr fresh_build)) ex_iam ex_rd_vpc = Inr (out1, ?rels)"
    "role_mappings ?out =
          map (\<lambda>(k, en). (k, en\<lparr>rm_security_groups := rev (rm_security_groups en)\<rparr>))
            (role_mappings out1)"
    "security_group_mappings ?out = security_group_mappings out1"
    "graph ?out = graph out1" "build_summary ?out = build_summary out1"
    "map (\<lambda>v. v\<lparr>rv_security_groups := []\<rparr>) (iam_roles (consolidated_view ?out))
          = map (\<lambda>v. v\<lparr>rv_security_groups := []\<rparr>) (iam_roles (consolidated_view out1))"
    by blast
  from t b obtain out0 rels0 where
    3: "build_relationships rev RelationshipBuilder_init ex_iam ex_rd_vpc = Inr (out0, rels0)"
    "role_mappings ?out = role_mappings out0"
    "consolidated_view ?out = consolidated_view out0"
    "nodes (graph ?out) = nodes (graph out0)"
    by blast
  from a 1 b 2 3 show ?thesis by blast
qed

text \<open>
  Identical inputs, three ways to different outputs: two fresh builders whose sets enumerate
  in different orders disagree on the role's security-group list and on the consolidated
  view; two fresh analyzers at different clock readings disagree on the timestamp; a
  second call on the same builder reports eight relationships and nine edges where the
  first reported four and five, and a second call on the same analyzer counts two critical
  findings out of a total of two where the first counted one.
\<close>

theorem repeated_runs_differ_counterexample:
  "\<not> isl fresh_build \<and> \<not> isl fresh_build_other_order \<and> \<not> isl reused_build
   \<and> \<not> isl fresh_analysis \<and> \<not> isl fresh_analysis_later \<and> \<not> isl reused_analysis
   \<and> map (\<lambda>kv. rm_security_groups (snd kv)) (role_mappings (fst (projr fresh_build)))
       = [[''sg-1'', ''sg-2'']]
   \<and> map (\<lambda>kv. rm_security_groups (snd kv)) (role_mappings (fst (projr fresh_build_other_order)))
       = [[''sg-2'', ''sg-1'']]
   \<and> map (\<lambda>v. map sd_group_id (rv_security_groups v))
        (iam_roles (consolidated_view (fst (projr fresh_build)))) = [[''sg-1'', ''sg-2'']]
   \<and> map (\<lambda>v. map sd_group_id (rv_security_groups v))
        (iam_roles (consolidated_view (fst (projr fresh_build_other_order)))) = [[''sg-2'', ''sg-1'']]
   \<and> fst (projr fresh_build_other_order) \<noteq> fst (projr fresh_build)
   \<and> timestamp (fst (projr fresh_analysis)) = ''2026-01-01T00:00:00''
   \<and> timestamp (fst (projr fresh_analysis_later)) = ''2026-01-01T00:00:01''
   \<and> fst (projr fresh_analysis_later) \<noteq> fst (projr fresh_analysis)
   \<and> total_relationships (build_summary (fst (projr fresh_build))) = 4
   \<and> total_relationships (build_summary (fst (projr reused_build))) = 8
   \<and> length (edges (graph (fst (projr fresh_build)))) = 5
   \<and> length (edges (graph (fst (projr reused_build)))) = 9
   \<and> critical_count (summary (fst (projr fresh_analysis))) = 1
   \<and> critical_count (summary (fst (projr reused_analysis))) = 2
   \<and> total_risks (summary (fst (projr reused_analysis))) = 2
   \<and> fst (projr reused_analysis) \<noteq> fst (projr fresh_analysis)"
  by code_simp

section \<open>Properties of the access-path query\<close>

lemma lookup_node_id: "lookup_node ns nid = Some n \<Longrightarrow> node_id n = nid"
  by (auto simp: lookup_node_def find_Some_iff)

lemma entry_id_path_entry_of [simp]: "entry_id (path_entry_of ns nid e) = nid"
  by (simp add: path_entry_of_def lookup_node_id split: option.splits)

text \<open>
  C10: a query from an id to itself returns the response of a found path, of length 0,
  whose only element is the stored node of that id, or the dictionary made on the spot when
  no node has the id; it never returns the response without a path, whatever the node list
  and the edge list hold, and it leaves the stored graph as it was.
\<close>

theorem access_path_to_itself:
  "get_access_path g s s = (PathFound s s 0 [path_entry_of (nodes g) s None], g)
   \<and> entry_id (path_entry_of (nodes g) s None) = s
   \<and> fst (get_access_path g s s) \<noteq> NoPathFound s s
   \<and> path_entry_of (nodes g) s None =
        (case lookup_node (nodes g) s of Some n \<Rightarrow> StoredNode n | None \<Rightarrow> DefaultNode s s None)"
proof -
  have "get_access_path g s s = (PathFound s s 0 [path_entry_of (nodes g) s None], g)"
    by (simp add: get_access_path_def)
  then show ?thesis by (simp add: path_entry_of_def [symmetric])
qed

text \<open>An id that occurs in no node and no edge, and a node that lies on a cycle.\<close>

theorem access_path_to_itself_witness:
  "get_access_path ex_path_graph ''user-Z'' ''user-Z''
     = (PathFound ''user-Z'' ''user-Z'' 0 [DefaultNode ''user-Z'' ''user-Z'' None], ex_path_graph)
   \<and> get_access_path ex_path_graph ''sg-C'' ''sg-C''
     = (PathFound ''sg-C'' ''sg-C'' 0
          [StoredNode (plain_node ''sg-C'' ''C'' ''security_group'' ''network'')], ex_path_graph)"
proof -
  have 1: "path_entry_of (nodes ex_path_graph) ''user-Z'' None = DefaultNode ''user-Z'' ''user-Z'' None"
    by code_simp
  have 2: "path_entry_of (nodes ex_path_graph) ''sg-C'' None
           = StoredNode (plain_node ''sg-C'' ''C'' ''security_group'' ''network'')"
    by code_simp
  from access_path_to_itself [of ex_path_graph "''user-Z''"]
       access_path_to_itself [of ex_path_graph "''sg-C''"] 1 2
  show ?thesis by simp
qed

subsection \<open>The adjacency dictionary\<close>

lemma neighbors_step:
  "neighbors (AList.map_entry (edge_source e) (\<lambda>l. l @ [(edge_target e, edge_type e)])
               (case map_of adj (edge_source e) of
                  None \<Rightarrow> AList.update (edge_source e) [] adj
                | Some l \<Rightarrow> adj)) u
   = (if edge_source e = u then neighbors adj u @ [(edge_target e, edge_type e)]
      else neighbors adj u)"
  by (cases "map_of adj (edge_source e)")
     (auto simp: neighbors_def map_of_map_entry update_conv')

lemma neighbors_build_adjacency:
  "neighbors (build_adjacency es) u
   = map (\<lambda>e. (edge_target e, edge_type e)) (filter (\<lambda>e. edge_source e = u) es)"
proof (induction es rule: rev_induct)
  case Nil
  show ?case by (simp add: build_adjacency_def neighbors_def)
next
  case (snoc e es)
  have "build_adjacency (es @ [e])
        = AList.map_entry (edge_source e) (\<lambda>l. l @ [(edge_target e, edge_type e)])
            (case map_of (build_adjacency es) (edge_source e) of
               None \<Rightarrow> AList.update (edge_source e) [] (build_adjacency es)
             | Some l \<Rightarrow> build_adjacency es)"
    by (simp add: build_adjacency_def Let_def cong: option.case_cong)
  then show ?case by (simp add: neighbors_step snoc.IH)
qed

lemma neighbor_ids: "map fst (neighbors (build_adjacency es) u) = out_targets es u"
  by (simp add: neighbors_build_adjacency out_targets_def comp_def)

subsection \<open>One turn of the loop\<close>

lemma foldl_visit:
  "foldl (visit p) (q, V) nbs
   = (q @ map (\<lambda>x. (x, p @ [x])) (unseen V (map fst nbs)), V \<union> set (unseen V (map fst nbs)))"
proof (induction nbs arbitrary: q V)
  case Nil
  show ?case by simp
next
  case (Cons nb nbs)
  show ?case
  proof (cases "fst nb \<in> V")
    case True
    then have "visit p (q, V) nb = (q, V)" by (simp add: visit_def)
    with True Cons.IH [of q V] show ?thesis by simp
  next
    case False
    then have "visit p (q, V) nb = (q @ [(fst nb, p @ [fst nb])], insert (fst nb) V)"
      by (simp add: visit_def)
    with False Cons.IH [of "q @ [(fst nb, p @ [fst nb])]" "insert (fst nb) V"]
    show ?thesis by simp
  qed
qed

lemma set_unseen: "set (unseen V xs) = set xs - V"
  by (induction xs arbitrary: V) auto

lemma distinct_unseen: "distinct (unseen V xs)"
  by (induction xs arbitrary: V) (auto simp: set_unseen)

lemma unseen_ranked:
  "sorted_wrt (\<lambda>x y. length (takeWhile (\<lambda>z. z \<noteq> x) xs) < length (takeWhile (\<lambda>z. z \<noteq> y) xs))
     (unseen V xs)"
proof (induction xs arbitrary: V)
  case Nil
  show ?case by simp
next
  case (Cons a xs)
  let ?r = "\<lambda>l x. length (takeWhile (\<lambda>z. z \<noteq> x) l)"
  have shift: "sorted_wrt (\<lambda>x y. ?r (a # xs) x < ?r (a # xs) y) (unseen W xs)"
    if "a \<in> W" for W
  proof (rule sorted_wrt_mono_rel [OF _ Cons.IH [of W]])
    fix x y
    assume "x \<in> set (unseen W xs)" "y \<in> set (unseen W xs)" and r: "?r xs x < ?r xs y"
    with that have "x \<noteq> a" "y \<noteq> a" by (auto simp: set_unseen)
    with r show "?r (a # xs) x < ?r (a # xs) y" by simp
  qed
  show ?case
  proof (cases "a \<in> V")
    case True
    with shift [of V] show ?thesis by simp
  next
    case False
    have "\<forall>y \<in> set (unseen (insert a V) xs). ?r (a # xs) a < ?r (a # xs) y"
      by (auto simp: set_unseen)
    with False shift [of "insert a V"] show ?thesis by simp
  qed
qed

subsection \<open>The order of discovery\<close>

lemma discovered_before_irrefl: "\<not> discovered_before es p p"
  by (simp add: discovered_before_def lexordp_irreflexive')

lemma discovered_before_trans:
  "discovered_before es p q \<Longrightarrow> discovered_before es q r \<Longrightarrow> discovered_before es p r"
  unfolding discovered_before_def using lexordp_trans by fastforce

lemma discovered_before_shorter: "length p < length q \<Longrightarrow> discovered_before es p q"
  by (simp add: discovered_before_def)

lemma discovered_before_length: "discovered_before es p q \<Longrightarrow> length p \<le> length q"
  by (auto simp: discovered_before_def)

lemma edge_ranks_snoc:
  "p \<noteq> [] \<Longrightarrow> edge_ranks es (p @ [x]) = edge_ranks es p @ [edge_rank es (last p) x]"
  by (induction es p rule: edge_ranks.induct) simp_all

lemma walk_snoc: "p \<noteq> [] \<Longrightarrow> walk es (p @ [x]) \<longleftrightarrow> walk es p \<and> has_edge es (last p) x"
  by (induction es p rule: walk.induct) auto

lemma lexordp_append_same_length:
  assumes "ord_class.lexordp (a :: nat list) b" and "length a = length b"
  shows "ord_class.lexordp (a @ c) (b @ d)"
proof -
  from assms(1) consider x vs where "b = a @ x # vs"
    | us i j vs ws where "i < j" "a = us @ i # vs" "b = us @ j # ws"
    unfolding lexordp_iff by blast
  then show ?thesis
  proof cases
    case 1
    with assms(2) show ?thesis by simp
  next
    case 2
    then have "a @ c = us @ i # (vs @ c)" "b @ d = us @ j # (ws @ d)" by simp_all
    with 2(1) show ?thesis by (simp only: lexordp_append_left_rightI)
  qed
qed

lemma discovered_before_snoc:
  assumes "discovered_before es p q" and "p \<noteq> []" and "q \<noteq> []"
  shows "discovered_before es (p @ [x]) (q @ [y])"
proof (cases "length p < length q")
  case True
  then show ?thesis by (simp add: discovered_before_def)
next
  case False
  with assms(1) have l: "length p = length q"
    and o: "ord_class.lexordp (edge_ranks es p) (edge_ranks es q)"
    by (auto simp: discovered_before_def)
  have "length (edge_ranks es r) = length r - 1" for r
    by (induction es r rule: edge_ranks.induct) simp_all
  with l have "length (edge_ranks es p) = length (edge_ranks es q)" by simp
  with o have "ord_class.lexordp (edge_ranks es p @ [edge_rank es (last p) x])
                 (edge_ranks es q @ [edge_rank es (last q) y])"
    by (rule lexordp_append_same_length)
  with l assms(2,3) show ?thesis by (simp add: discovered_before_def edge_ranks_snoc)
qed

lemma discovered_before_snoc_same:
  assumes "p \<noteq> []" and "edge_rank es (last p) x < edge_rank es (last p) y"
  shows "discovered_before es (p @ [x]) (p @ [y])"
proof -
  from assms(2) have "ord_class.lexordp (edge_ranks es p @ [edge_rank es (last p) x])
                        (edge_ranks es p @ [edge_rank es (last p) y])"
    by (intro lexordp_append_leftI) simp
  with assms(1) show ?thesis by (simp add: discovered_before_def edge_ranks_snoc)
qed

lemma edge_rank_inj:
  assumes "has_edge es a b" and "has_edge es a c" and "edge_rank es a b = edge_rank es a c"
  shows "b = c"
proof -
  let ?l = "out_targets es a"
  have n: "x \<in> set l \<Longrightarrow> l ! length (takeWhile (\<lambda>z. z \<noteq> x) l) = x" for x and l :: "string list"
    by (induction l) auto
  from assms(1,2) have "b \<in> set ?l" "c \<in> set ?l" by (simp_all add: has_edge_def)
  then have "?l ! edge_rank es a b = b" "?l ! edge_rank es a c = c"
    unfolding edge_rank_def using n [of b ?l] n [of c ?l] by blast+
  with assms(3) show ?thesis by metis
qed

lemma edge_ranks_inj:
  "walk es p \<Longrightarrow> walk es q \<Longrightarrow> hd p = hd q \<Longrightarrow> length p = length q
     \<Longrightarrow> edge_ranks es p = edge_ranks es q \<Longrightarrow> p = q"
proof (induction es p arbitrary: q rule: edge_ranks.induct)
  case (1 es)
  then show ?case by simp
next
  case (2 es x)
  then show ?case by (cases q) simp_all
next
  case (3 es x y p)
  from "3.prems"(4) obtain x' y' q' where q: "q = x' # y' # q'"
    by (cases q; cases "tl q") auto
  with "3.prems" have x: "x' = x" by simp
  from "3.prems" q x have "y' = y" using edge_rank_inj [of es x y y'] by simp
  with "3.prems" q x "3.IH" [of "y # q'"] show ?case by simp
qed

lemma discovered_before_linear:
  assumes "walk es p" and "walk es q" and "hd p = hd q"
  shows "discovered_before es p q \<or> p = q \<or> discovered_before es q p"
proof (cases "length p = length q")
  case False
  then show ?thesis by (auto simp: discovered_before_def)
next
  case True
  with lexordp_linear [of "edge_ranks es p" "edge_ranks es q"] edge_ranks_inj [OF assms True]
  show ?thesis by (auto simp: discovered_before_def)
qed

subsection \<open>Paths\<close>

lemma path_from_to_nonempty: "path_from_to es s t p \<Longrightarrow> p \<noteq> []"
  by (auto simp: path_from_to_def)

lemma path_singleton: "path_from_to es s t p \<Longrightarrow> length p = 1 \<Longrightarrow> p = [s] \<and> t = s"
  by (cases p) (auto simp: path_from_to_def)

lemma path_from_to_snoc:
  "path_from_to es s u p \<Longrightarrow> has_edge es u x \<Longrightarrow> path_from_to es s x (p @ [x])"
proof -
  assume p: "path_from_to es s u p" and e: "has_edge es u x"
  then have ne: "p \<noteq> []" by (auto simp: path_from_to_def)
  with p e have "walk es (p @ [x])" by (simp add: walk_snoc path_from_to_def)
  with ne p show ?thesis by (simp add: path_from_to_def)
qed

lemma path_split:
  assumes "path_from_to es s y w" and "length w \<noteq> 1"
  shows "w = butlast w @ [y] \<and> path_from_to es s (last (butlast w)) (butlast w)
         \<and> has_edge es (last (butlast w)) y"
proof -
  from assms have ne: "w \<noteq> []" and l: "last w = y" and h: "hd w = s" and wk: "walk es w"
    by (auto simp: path_from_to_def)
  from ne assms(2) have b: "butlast w \<noteq> []" by (cases w) auto
  from ne l have w: "w = butlast w @ [y]" by (metis append_butlast_last_id)
  with wk b have "walk es (butlast w) \<and> has_edge es (last (butlast w)) y"
    using walk_snoc [of "butlast w" es y] by simp
  moreover from b h have "hd (butlast w) = s" by (cases w) auto
  ultimately show ?thesis using w by (simp add: path_from_to_def)
qed

lemma first_path_self: "first_path es s s [s]"
proof -
  have "w = [s] \<or> discovered_before es [s] w" if "path_from_to es s s w" for w
  proof (cases "length w = 1")
    case True
    with that show ?thesis using path_singleton by blast
  next
    case False
    with path_from_to_nonempty [OF that] have "1 < length w" by (cases w) auto
    then show ?thesis by (simp add: discovered_before_def)
  qed
  then show ?thesis by (auto simp: first_path_def path_from_to_def)
qed

subsection \<open>The invariant\<close>

lemma bfs_inv_init: "bfs_inv es s t [(s, [s])] {s}"
  by (simp add: bfs_inv_def first_path_self)

lemma sorted_head_first:
  assumes "sorted_wrt R (map snd q)" and "vp \<in> set q"
  shows "snd vp = snd (hd q) \<or> R (snd (hd q)) (snd vp)"
  using assms by (cases q) auto

text \<open>A path that comes before the head of the queue ends in a node that is done with.\<close>

lemma earlier_paths_done:
  assumes inv: "bfs_inv es s t q V"
    and w: "path_from_to es s y w"
    and e: "q = [] \<or> discovered_before es w (snd (hd q))"
  shows "y \<in> V \<and> y \<notin> fst ` set q"
  using w e
proof (induction "length w" arbitrary: w y rule: less_induct)
  case less
  note w = less.prems(1) and e = less.prems(2)
  have notq: "y \<notin> fst ` set q"
  proof
    assume "y \<in> fst ` set q"
    then obtain m where m: "(y, m) \<in> set q" by force
    then have "q \<noteq> []" by auto
    with e have wh: "discovered_before es w (snd (hd q))" by simp
    from inv m have "first_path es s y m" by (force simp: bfs_inv_def)
    with w have wm: "w = m \<or> discovered_before es m w" by (simp add: first_path_def)
    from inv have "sorted_wrt (discovered_before es) (map snd q)" by (simp add: bfs_inv_def)
    from sorted_head_first [OF this m]
    have hm: "m = snd (hd q) \<or> discovered_before es (snd (hd q)) m" by simp
    from wm hm wh show False
      using discovered_before_trans discovered_before_irrefl by metis
  qed
  have "y \<in> V"
  proof (cases "length w = 1")
    case True
    with w have "y = s" using path_singleton by blast
    with inv show ?thesis by (simp add: bfs_inv_def)
  next
    case False
    let ?w = "butlast w"
    from path_split [OF w False] have ww: "w = ?w @ [y]"
      and pw: "path_from_to es s (last ?w) ?w" and ed: "has_edge es (last ?w) y"
      by simp_all
    from path_from_to_nonempty [OF w] have len: "length ?w < length w" by simp
    then have "discovered_before es ?w w" by (rule discovered_before_shorter)
    with e have "q = [] \<or> discovered_before es ?w (snd (hd q))"
      using discovered_before_trans by blast
    from less.hyps [OF len pw this] have "last ?w \<in> V" "last ?w \<notin> fst ` set q" by simp_all
    with inv have "set (out_targets es (last ?w)) \<subseteq> V" by (simp add: bfs_inv_def)
    with ed show ?thesis by (auto simp: has_edge_def)
  qed
  with notq show ?case by simp
qed

lemma bfs_inv_step:
  assumes inv: "bfs_inv es s t ((u, p) # q) V" and ut: "u \<noteq> t"
  shows "bfs_inv es s t (q @ map (\<lambda>x. (x, p @ [x])) (unseen V (out_targets es u)))
           (V \<union> set (unseen V (out_targets es u)))"
proof -
  let ?new = "unseen V (out_targets es u)"
  let ?q' = "q @ map (\<lambda>x. (x, p @ [x])) ?new"
  let ?V' = "V \<union> set ?new"
  from inv have fp: "first_path es s u p" and dp: "distinct p" and sp: "set p \<subseteq> V"
    and sorted: "sorted_wrt (discovered_before es) (p # map snd q)"
    and old: "\<forall>vp \<in> set q. first_path es s (fst vp) (snd vp) \<and> distinct (snd vp) \<and> set (snd vp) \<subseteq> V"
    and ext: "\<forall>vp \<in> set q. snd vp = [s] \<or> discovered_before es (butlast (snd vp)) p"
    and sV: "s \<in> V"
    and closed: "\<forall>u' \<in> V. u' \<notin> fst ` set ((u, p) # q) \<longrightarrow> u' \<noteq> t \<and> set (out_targets es u') \<subseteq> V"
    by (simp_all add: bfs_inv_def)
  from fp have pu: "path_from_to es s u p" by (simp add: first_path_def)
  then have pne: "p \<noteq> []" by (rule path_from_to_nonempty)
  from pu have lp: "last p = u" by (simp add: path_from_to_def)
  have new: "set ?new = set (out_targets es u) - V" by (rule set_unseen)

  have a_new: "first_path es s x (p @ [x]) \<and> distinct (p @ [x]) \<and> set (p @ [x]) \<subseteq> ?V'"
    if x: "x \<in> set ?new" for x
  proof -
    from x new have xe: "has_edge es u x" and xV: "x \<notin> V" by (auto simp: has_edge_def)
    from pu xe have px: "path_from_to es s x (p @ [x])" by (rule path_from_to_snoc)
    have "w = p @ [x] \<or> discovered_before es (p @ [x]) w" if w: "path_from_to es s x w" for w
    proof -
      let ?w = "butlast w"
      from sV xV have "x \<noteq> s" by auto
      with w have "length w \<noteq> 1" using path_singleton by blast
      from path_split [OF w this] have ww: "w = ?w @ [x]"
        and pw: "path_from_to es s (last ?w) ?w" and ed: "has_edge es (last ?w) x"
        by simp_all
      from pw pu have "discovered_before es ?w p \<or> ?w = p \<or> discovered_before es p ?w"
        using discovered_before_linear [of es ?w p] by (simp add: path_from_to_def)
      then consider (before) "discovered_before es ?w p" | (same) "?w = p"
        | (after) "discovered_before es p ?w" by blast
      then show ?thesis
      proof cases
        case before
        with earlier_paths_done [OF inv pw]
        have "last ?w \<in> V" "last ?w \<notin> fst ` set ((u, p) # q)" by simp_all
        with closed have "set (out_targets es (last ?w)) \<subseteq> V" by blast
        with ed xV show ?thesis by (auto simp: has_edge_def)
      next
        case same
        with ww show ?thesis by simp
      next
        case after
        from discovered_before_snoc [OF after pne path_from_to_nonempty [OF pw], of x x] ww
        show ?thesis by simp
      qed
    qed
    with px have "first_path es s x (p @ [x])" by (simp add: first_path_def)
    moreover from dp sp xV have "distinct (p @ [x])" by auto
    moreover from sp x have "set (p @ [x]) \<subseteq> ?V'" by auto
    ultimately show ?thesis by simp
  qed
  have I1: "\<forall>vp \<in> set ?q'. first_path es s (fst vp) (snd vp) \<and> distinct (snd vp)
              \<and> set (snd vp) \<subseteq> ?V'"
  proof
    fix vp assume "vp \<in> set ?q'"
    then consider "vp \<in> set q" | x where "x \<in> set ?new" "vp = (x, p @ [x])" by auto
    then show "first_path es s (fst vp) (snd vp) \<and> distinct (snd vp) \<and> set (snd vp) \<subseteq> ?V'"
    proof cases
      case 1
      with old show ?thesis by blast
    next
      case 2
      with a_new [of x] show ?thesis by simp
    qed
  qed

  have cross: "discovered_before es (snd vp) (p @ [x])" if vp: "vp \<in> set q" for vp x
  proof -
    from ext vp have "snd vp = [s] \<or> discovered_before es (butlast (snd vp)) p" by blast
    then show ?thesis
    proof
      assume "snd vp = [s]"
      with pne show ?thesis by (simp add: discovered_before_def)
    next
      assume b: "discovered_before es (butlast (snd vp)) p"
      from old vp have "path_from_to es s (fst vp) (snd vp)" by (simp add: first_path_def)
      then have "snd vp \<noteq> []" by (rule path_from_to_nonempty)
      then have e: "butlast (snd vp) @ [last (snd vp)] = snd vp" by simp
      show ?thesis
      proof (cases "butlast (snd vp) = []")
        case True
        with e have "length (snd vp) = 1" by (metis append_Nil length_Cons list.size(3) One_nat_def)
        with pne show ?thesis by (simp add: discovered_before_def)
      next
        case False
        from discovered_before_snoc [OF b False pne, of "last (snd vp)" x] e
        show ?thesis by simp
      qed
    qed
  qed
  have news: "sorted_wrt (discovered_before es) (map (\<lambda>x. p @ [x]) ?new)"
  proof -
    have "sorted_wrt (\<lambda>x y. edge_rank es u x < edge_rank es u y) ?new"
      unfolding edge_rank_def by (rule unseen_ranked)
    then have "sorted_wrt (\<lambda>x y. discovered_before es (p @ [x]) (p @ [y])) ?new"
    proof (rule sorted_wrt_mono_rel [rotated])
      fix x y
      assume "edge_rank es u x < edge_rank es u y"
      with lp show "discovered_before es (p @ [x]) (p @ [y])"
        using discovered_before_snoc_same [OF pne, of es x y] by simp
    qed
    then show ?thesis by (simp add: sorted_wrt_map)
  qed
  have I2: "sorted_wrt (discovered_before es) (map snd ?q')"
  proof -
    have "map snd ?q' = map snd q @ map (\<lambda>x. p @ [x]) ?new" by (simp add: comp_def)
    moreover from sorted have "sorted_wrt (discovered_before es) (map snd q)" by simp
    moreover have "\<forall>a \<in> set (map snd q). \<forall>b \<in> set (map (\<lambda>x. p @ [x]) ?new).
        discovered_before es a b"
      using cross by auto
    ultimately show ?thesis using news by (simp only: sorted_wrt_append)
  qed

  have after_p: "discovered_before es p (snd vp)" if "vp \<in> set ?q'" for vp
  proof -
    from that consider "vp \<in> set q" | x where "x \<in> set ?new" "vp = (x, p @ [x])" by auto
    then show ?thesis
    proof cases
      case 1
      with sorted show ?thesis by auto
    next
      case 2
      then show ?thesis by (simp add: discovered_before_def)
    qed
  qed
  have I3: "\<forall>vp \<in> set ?q'. snd vp = [s]
              \<or> discovered_before es (butlast (snd vp)) (snd (hd ?q'))"
  proof
    fix vp assume vp: "vp \<in> set ?q'"
    then have "?q' \<noteq> []" by auto
    then have "hd ?q' \<in> set ?q'" by (rule hd_in_set)
    from after_p [OF this] have ph: "discovered_before es p (snd (hd ?q'))" .
    from vp consider "vp \<in> set q" | x where "x \<in> set ?new" "vp = (x, p @ [x])" by auto
    then show "snd vp = [s] \<or> discovered_before es (butlast (snd vp)) (snd (hd ?q'))"
    proof cases
      case 1
      with ext have "snd vp = [s] \<or> discovered_before es (butlast (snd vp)) p" by blast
      with ph show ?thesis using discovered_before_trans by blast
    next
      case 2
      with ph show ?thesis by simp
    qed
  qed

  have I5: "\<forall>u' \<in> ?V'. u' \<notin> fst ` set ?q' \<longrightarrow> u' \<noteq> t \<and> set (out_targets es u') \<subseteq> ?V'"
  proof (intro ballI impI)
    fix u' assume uV: "u' \<in> ?V'" and nq: "u' \<notin> fst ` set ?q'"
    from nq have n1: "u' \<notin> fst ` set q" and n2: "u' \<notin> set ?new" by force+
    with uV have v: "u' \<in> V" by simp
    show "u' \<noteq> t \<and> set (out_targets es u') \<subseteq> ?V'"
    proof (cases "u' = u")
      case True
      with ut new show ?thesis by auto
    next
      case False
      with n1 have "u' \<notin> fst ` set ((u, p) # q)" by simp
      with closed v show ?thesis by blast
    qed
  qed
  from sV have sV': "s \<in> ?V'" by simp
  from I1 I2 I3 sV' I5 show ?thesis unfolding bfs_inv_def by blast
qed

subsection \<open>The loop\<close>

lemma bfs_turn:
  "foldl (visit p) (q, V) (neighbors (build_adjacency es) u)
   = (q @ map (\<lambda>x. (x, p @ [x])) (unseen V (out_targets es u)),
      V \<union> set (unseen V (out_targets es u)))"
  by (simp add: foldl_visit neighbor_ids)

lemma bfs_correct:
  assumes "bfs_inv es s t q V" and "adj = build_adjacency es"
  shows "case bfs adj t q V of
           Some p \<Rightarrow> first_path es s t p \<and> distinct p
         | None \<Rightarrow> (\<forall>w. \<not> path_from_to es s t w)"
  using assms
proof (induction adj t q V rule: bfs.induct)
  case (1 adjacency target visited)
  have "\<not> path_from_to es s target w" for w
  proof
    assume "path_from_to es s target w"
    from earlier_paths_done [OF "1.prems"(1) this]
    have "target \<in> visited" "target \<notin> fst ` set ([] :: (string \<times> string list) list)" by simp_all
    with "1.prems"(1) show False by (auto simp: bfs_inv_def)
  qed
  then show ?case by simp
next
  case (2 adjacency target current path queue visited)
  show ?case
  proof (cases "current = target")
    case True
    with "2.prems"(1) show ?thesis by (simp add: bfs_inv_def)
  next
    case False
    let ?new = "unseen visited (out_targets es current)"
    from bfs_inv_step [OF "2.prems"(1) False]
    have "bfs_inv es s target (queue @ map (\<lambda>x. (x, path @ [x])) ?new) (visited \<union> set ?new)" .
    with "2.IH" [OF False] "2.prems"(2) False show ?thesis by (simp add: bfs_turn)
  qed
qed

lemma bfs_from_source:
  "case bfs (build_adjacency es) t [(s, [s])] {s} of
     Some p \<Rightarrow> first_path es s t p \<and> distinct p
   | None \<Rightarrow> (\<forall>w. \<not> path_from_to es s t w)"
  by (rule bfs_correct [OF bfs_inv_init refl])

subsection \<open>The annotation of the path\<close>

lemma find_update_first:
  assumes "\<And>n. node_id (f n) = node_id n"
  shows "find (\<lambda>n. node_id n = x) (update_first (\<lambda>n. node_id n = a) f l)
         = (if x = a then map_option f (find (\<lambda>n. node_id n = a) l)
            else find (\<lambda>n. node_id n = x) l)"
  by (induction l) (auto simp: assms)

lemma lookup_set_edge_to_next:
  "lookup_node (set_edge_to_next a ty ns) x
   = (if x = a then map_option (\<lambda>n. n\<lparr>edge_to_next := Some ty\<rparr>) (lookup_node ns a)
      else lookup_node ns x)"
  by (simp add: lookup_node_def set_edge_to_next_def find_update_first)

lemma lookup_annotate_other:
  "x \<notin> set (butlast p) \<Longrightarrow> lookup_node (annotate_stored es p ns) x = lookup_node ns x"
  by (induction es p ns rule: annotate_stored.induct) (simp_all add: lookup_set_edge_to_next)

lemma lookup_annotate_nth:
  "distinct p \<Longrightarrow> i + 1 < length p \<Longrightarrow>
     lookup_node (annotate_stored es p ns) (p ! i)
     = map_option (\<lambda>n. n\<lparr>edge_to_next := Some (edge_type_between es (p ! i) (p ! (i + 1)))\<rparr>)
         (lookup_node ns (p ! i))"
proof (induction es p ns arbitrary: i rule: annotate_stored.induct)
  case (1 es ns)
  then show ?case by simp
next
  case (2 es x ns)
  then show ?case by simp
next
  case (3 es x y p ns)
  show ?case
  proof (cases i)
    case 0
    from "3.prems"(1) have "x \<notin> set (butlast (y # p))" by (auto dest: in_set_butlastD)
    with 0 show ?thesis by (simp add: lookup_annotate_other lookup_set_edge_to_next)
  next
    case (Suc j)
    with "3.prems" have j: "j + 1 < length (y # p)" and d: "distinct (y # p)"
      and x: "x \<notin> set (y # p)"
      by auto
    from j have "(y # p) ! j \<in> set (y # p)" by (intro nth_mem) simp
    with x have ne: "(y # p) ! j \<noteq> x" by metis
    from "3.IH" [OF d j] ne Suc show ?thesis by (simp add: lookup_set_edge_to_next)
  qed
qed

lemma length_path_details [simp]: "length (path_details es ns p) = length p"
  by (induction es ns p rule: path_details.induct) simp_all

lemma entry_ids_path_details [simp]: "map entry_id (path_details es ns p) = p"
  by (induction es ns p rule: path_details.induct) simp_all

lemma path_details_nth:
  "i + 1 < length p \<Longrightarrow>
     path_details es ns p ! i
     = path_entry_of ns (p ! i) (Some (edge_type_between es (p ! i) (p ! (i + 1))))"
proof (induction es ns p arbitrary: i rule: path_details.induct)
  case (3 es ns x y p)
  then show ?case by (cases i) simp_all
qed simp_all

lemma annotated_entry:
  assumes "distinct p" and "i + 1 < length p"
  shows "entry_edge_to_next (path_details es (annotate_stored es p ns) p ! i)
         = Some (edge_type_between es (p ! i) (p ! (i + 1)))"
  using lookup_annotate_nth [OF assms, of es ns]
  by (auto simp: path_details_nth [OF assms(2)] path_entry_of_def split: option.splits)

lemma edge_type_between_edge:
  assumes "has_edge es a b"
  shows "\<exists>e \<in> set es. edge_source e = a \<and> edge_target e = b
           \<and> edge_type e = edge_type_between es a b"
proof -
  from assms obtain e0 where "e0 \<in> set es" "edge_source e0 = a" "edge_target e0 = b"
    by (auto simp: has_edge_def out_targets_def)
  then have "find (\<lambda>e. edge_source e = a \<and> edge_target e = b) es \<noteq> None"
    by (auto simp: find_None_iff)
  then obtain e where e: "find (\<lambda>e. edge_source e = a \<and> edge_target e = b) es = Some e"
    by blast
  then have "e \<in> set es" "edge_source e = a" "edge_target e = b"
    by (auto simp: find_Some_iff)
  with e show ?thesis by (auto simp: edge_type_between_def)
qed

lemma walk_nth: "walk es p \<Longrightarrow> i + 1 < length p \<Longrightarrow> has_edge es (p ! i) (p ! (i + 1))"
proof (induction es p arbitrary: i rule: walk.induct)
  case (3 es x y p)
  then show ?case by (cases i) simp_all
qed simp_all

text \<open>
  C5: the query returns for every stored graph and every two ids, cycles in the edge list
  or not: \<open>bfs\<close> is a total function by its termination proof. When some path leads from
  the source to the target, the response is the one of a found path; its ids, in order,
  form a path \<open>p\<close> from the source to the target that no path is shorter than, and that
  among the paths of its length takes the earlier edge of the edge list where it parts
  from another; \<^verbatim>\<open>path_length\<close> is the number of its edges; every element but the last
  carries in \<^verbatim>\<open>edge_to_next\<close> the type of the first edge of the list from its id to the
  next. When no path leads from the source to the target, the response is the one without
  a path and the stored graph is left as it was.
\<close>

theorem access_path_is_first_shortest_path:
  assumes "get_access_path g s t = (res, g')"
  shows "((\<exists>q. path_from_to (edges g) s t q) \<longrightarrow>
           (\<exists>p details. res = PathFound s t (int (length p) - 1) details
              \<and> path_from_to (edges g) s t p
              \<and> (\<forall>q. path_from_to (edges g) s t q \<longrightarrow>
                    length p \<le> length q
                  \<and> (length q = length p \<longrightarrow>
                       q = p \<or> ord_class.lexordp (edge_ranks (edges g) p) (edge_ranks (edges g) q)))
              \<and> int (length p) - 1 = int (length (edge_ranks (edges g) p))
              \<and> map entry_id details = p
              \<and> (\<forall>i. i + 1 < length p \<longrightarrow>
                    entry_edge_to_next (details ! i)
                      = Some (edge_type_between (edges g) (p ! i) (p ! (i + 1)))
                  \<and> (\<exists>e \<in> set (edges g). edge_source e = p ! i \<and> edge_target e = p ! (i + 1)
                        \<and> entry_edge_to_next (details ! i) = Some (edge_type e)))))
       \<and> ((\<forall>q. \<not> path_from_to (edges g) s t q) \<longrightarrow> res = NoPathFound s t \<and> g' = g)"
proof (cases "bfs (build_adjacency (edges g)) t [(s, [s])] {s}")
  case None
  with bfs_from_source [where es = "edges g" and s = s and t = t]
  have "\<forall>w. \<not> path_from_to (edges g) s t w" by (simp del: bfs.simps)
  moreover from None assms have "res = NoPathFound s t \<and> g' = g"
    by (simp add: get_access_path_def del: bfs.simps)
  ultimately show ?thesis by blast
next
  case (Some p)
  let ?es = "edges g"
  let ?details = "path_details ?es (annotate_stored ?es p (nodes g)) p"
  from Some bfs_from_source [where es = ?es and s = s and t = t]
  have fp: "first_path ?es s t p" and d: "distinct p"
    by (simp_all del: bfs.simps)
  from fp have pp: "path_from_to ?es s t p"
    and least: "\<And>q. path_from_to ?es s t q \<Longrightarrow> q = p \<or> discovered_before ?es p q"
    by (simp_all add: first_path_def)
  from Some assms have res: "res = PathFound s t (int (length p) - 1) ?details"
    by (auto simp: get_access_path_def Let_def simp del: bfs.simps)
  have short: "length p \<le> length q
      \<and> (length q = length p \<longrightarrow> q = p \<or> ord_class.lexordp (edge_ranks ?es p) (edge_ranks ?es q))"
    if "path_from_to ?es s t q" for q
    using least [OF that] by (auto simp: discovered_before_def)
  have hops: "int (length p) - 1 = int (length (edge_ranks ?es p))"
  proof -
    have "length (edge_ranks ?es r) = length r - 1" for r
      by (induction ?es r rule: edge_ranks.induct) simp_all
    moreover from pp have "p \<noteq> []" by (rule path_from_to_nonempty)
    ultimately show ?thesis by (cases p) simp_all
  qed
  have ann: "entry_edge_to_next (?details ! i) = Some (edge_type_between ?es (p ! i) (p ! (i + 1)))
      \<and> (\<exists>e \<in> set ?es. edge_source e = p ! i \<and> edge_target e = p ! (i + 1)
            \<and> entry_edge_to_next (?details ! i) = Some (edge_type e))"
    if i: "i + 1 < length p" for i
  proof -
    have a: "entry_edge_to_next (?details ! i) = Some (edge_type_between ?es (p ! i) (p ! (i + 1)))"
      using d i by (rule annotated_entry)
    from pp i have "has_edge ?es (p ! i) (p ! (i + 1))"
      by (intro walk_nth) (simp_all add: path_from_to_def)
    from edge_type_between_edge [OF this] a show ?thesis by auto
  qed
  have short': "\<forall>q. path_from_to ?es s t q \<longrightarrow>
                    length p \<le> length q
                  \<and> (length q = length p \<longrightarrow>
                       q = p \<or> ord_class.lexordp (edge_ranks ?es p) (edge_ranks ?es q))"
    using short by blast
  have ann': "\<forall>i. i + 1 < length p \<longrightarrow>
                    entry_edge_to_next (?details ! i)
                      = Some (edge_type_between ?es (p ! i) (p ! (i + 1)))
                  \<and> (\<exists>e \<in> set ?es. edge_source e = p ! i \<and> edge_target e = p ! (i + 1)
                        \<and> entry_edge_to_next (?details ! i) = Some (edge_type e))"
    using ann by blast
  have ids: "map entry_id ?details = p" by simp
  from res pp short' hops ids ann' have
    "\<exists>p details. res = PathFound s t (int (length p) - 1) details
              \<and> path_from_to ?es s t p
              \<and> (\<forall>q. path_from_to ?es s t q \<longrightarrow>
                    length p \<le> length q
                  \<and> (length q = length p \<longrightarrow>
                       q = p \<or> ord_class.lexordp (edge_ranks ?es p) (edge_ranks ?es q)))
              \<and> int (length p) - 1 = int (length (edge_ranks ?es p))
              \<and> map entry_id details = p
              \<and> (\<forall>i. i + 1 < length p \<longrightarrow>
                    entry_edge_to_next (details ! i)
                      = Some (edge_type_between ?es (p ! i) (p ! (i + 1)))
                  \<and> (\<exists>e \<in> set ?es. edge_source e = p ! i \<and> edge_target e = p ! (i + 1)
                        \<and> entry_edge_to_next (details ! i) = Some (edge_type e)))"
    by (intro exI [of _ p] exI [of _ ?details] conjI)
  with pp show ?thesis by blast
qed

lemma no_out_edges:
  assumes "out_targets es s = []" and "path_from_to es s t q"
  shows "t = s"
proof (cases q)
  case Nil
  with assms(2) show ?thesis by (simp add: path_from_to_def)
next
  case (Cons x r)
  show ?thesis
  proof (cases r)
    case Nil
    with Cons assms(2) show ?thesis by (auto simp: path_from_to_def)
  next
    case (Cons y r')
    with \<open>q = x # r\<close> assms show ?thesis by (auto simp: path_from_to_def has_edge_def)
  qed
qed

lemma ex_diamond_found:
  "(case fst (get_access_path ex_diamond_graph ''role-A'' ''internet'') of
      PathFound a b n d \<Rightarrow> (a, b, n, map entry_id d, map entry_edge_to_next d)
    | NoPathFound a b \<Rightarrow> (a, b, 0, [], []))
   = (''role-A'', ''internet'', 3, [''role-A'', ''lambda-C'', ''sg-D'', ''internet''],
      [Some ''assumes'', Some ''protected_by'', Some ''allows_traffic_from'', None])"
  by code_simp

lemma ex_diamond_other_path:
  "path_from_to (edges ex_diamond_graph) ''role-A'' ''internet''
     [''role-A'', ''ec2-B'', ''sg-D'', ''internet'']"
  by code_simp

lemma ex_diamond_sink: "out_targets (edges ex_diamond_graph) ''internet'' = []"
  by code_simp

text \<open>
  Two paths of three edges lead from the role to the Internet node, and the security group
  points back to the role. The query returns the path over the function, whose edge comes
  first in the edge list, with the type of the first of the two edges from the role to the
  function; from the Internet node, which no edge leaves, it finds no path to the role.
\<close>

theorem access_path_is_first_shortest_path_witness:
  "(\<exists>details.
       fst (get_access_path ex_diamond_graph ''role-A'' ''internet'')
         = PathFound ''role-A'' ''internet'' 3 details
     \<and> map entry_id details = [''role-A'', ''lambda-C'', ''sg-D'', ''internet'']
     \<and> map entry_edge_to_next details
         = [Some ''assumes'', Some ''protected_by'', Some ''allows_traffic_from'', None])
   \<and> path_from_to (edges ex_diamond_graph) ''role-A'' ''internet''
        [''role-A'', ''ec2-B'', ''sg-D'', ''internet'']
   \<and> ord_class.lexordp
        (edge_ranks (edges ex_diamond_graph) [''role-A'', ''lambda-C'', ''sg-D'', ''internet''])
        (edge_ranks (edges ex_diamond_graph) [''role-A'', ''ec2-B'', ''sg-D'', ''internet''])
   \<and> get_access_path ex_diamond_graph ''internet'' ''role-A''
        = (NoPathFound ''internet'' ''role-A'', ex_diamond_graph)"
proof -
  let ?g = ex_diamond_graph
  let ?X = "get_access_path ?g ''role-A'' ''internet''"
  let ?Y = "get_access_path ?g ''internet'' ''role-A''"
  let ?q = "[''role-A'', ''ec2-B'', ''sg-D'', ''internet'']"
  have X: "?X = (fst ?X, snd ?X)" and Y: "?Y = (fst ?Y, snd ?Y)" by simp_all
  from access_path_is_first_shortest_path [OF X] ex_diamond_other_path
  obtain p details where r: "fst ?X = PathFound ''role-A'' ''internet'' (int (length p) - 1) details"
    and ids: "map entry_id details = p"
    and least: "\<forall>q. path_from_to (edges ?g) ''role-A'' ''internet'' q \<longrightarrow>
                    length p \<le> length q
                  \<and> (length q = length p \<longrightarrow>
                       q = p \<or> ord_class.lexordp (edge_ranks (edges ?g) p) (edge_ranks (edges ?g) q))"
    by blast
  from r ids ex_diamond_found have p: "p = [''role-A'', ''lambda-C'', ''sg-D'', ''internet'']"
    and e: "map entry_edge_to_next details
         = [Some ''assumes'', Some ''protected_by'', Some ''allows_traffic_from'', None]"
    by simp_all
  from least ex_diamond_other_path p
  have o: "ord_class.lexordp (edge_ranks (edges ?g) p) (edge_ranks (edges ?g) ?q)" by auto
  have "\<forall>q. \<not> path_from_to (edges ?g) ''internet'' ''role-A'' q"
    using no_out_edges [OF ex_diamond_sink] by fastforce
  with access_path_is_first_shortest_path [OF Y]
  have n: "fst ?Y = NoPathFound ''internet'' ''role-A'' \<and> snd ?Y = ?g" by blast
  from r ids e p have "\<exists>details.
       fst ?X = PathFound ''role-A'' ''internet'' 3 details
     \<and> map entry_id details = [''role-A'', ''lambda-C'', ''sg-D'', ''internet'']
     \<and> map entry_edge_to_next details
         = [Some ''assumes'', Some ''protected_by'', Some ''allows_traffic_from'', None]"
    by simp
  moreover from n have "?Y = (NoPathFound ''internet'' ''role-A'', ?g)"
    by (metis prod.collapse)
  ultimately show ?thesis using ex_diamond_other_path o p by simp
qed

end
